theory Spec2Isabelle
  imports Main "HOL-Library.Sublist"
begin

section \<open>MM Purchasing Remediator: the matching-and-suggestion engine of \<open>app/main.py\<close>\<close>

text \<open>
  The program scans ABAP source text with five regular expressions and turns every match
  into a suggestion record. The model has three layers:
  \<^item> the part of Python's \<open>re\<close> that the five patterns use (a backtracking matcher with
    greedy quantifiers, named groups, \<open>\b\<close>, \<open>finditer\<close>), as functions over a small
    pattern syntax;
  \<^item> the reference tables and the five patterns, built from the tables as the source
    builds them;
  \<^item> \<open>_mk_suggested_statement\<close>, \<open>_add_hit\<close>, \<open>find_mm_purchasing_issues\<close> and
    \<open>remediate_mm_purchasing\<close>, with Python's exceptions as values of a sum type.

  A text is a \<open>string\<close>: a list of characters, each standing for one code point in the
  range 0 to 255, so that \<open>length\<close> and all offsets count code points as Python's \<open>str\<close>
  does. The character predicates below are Python's Unicode ones on that range.
\<close>

subsection \<open>Characters\<close>

definition sq :: char where
  "sq = CHR 0x27"

definition dq :: char where
  "dq = CHR 0x22"

text \<open>\<open>\s\<close> on a \<open>str\<close> pattern: the code points below 256 for which Python's matcher
  answers true.\<close>

definition isspace :: "char \<Rightarrow> bool" where
  "isspace c = (let n = (of_char c :: nat) in
     (9 \<le> n \<and> n \<le> 13) \<or> (28 \<le> n \<and> n \<le> 32) \<or> n = 133 \<or> n = 160)"

text \<open>\<open>\w\<close> on a \<open>str\<close> pattern: alphanumeric code points and the underscore.\<close>

definition isword :: "char \<Rightarrow> bool" where
  "isword c = (let n = (of_char c :: nat) in
     (48 \<le> n \<and> n \<le> 57) \<or> (65 \<le> n \<and> n \<le> 90) \<or> n = 95 \<or> (97 \<le> n \<and> n \<le> 122) \<or>
     n = 170 \<or> n = 178 \<or> n = 179 \<or> n = 181 \<or> n = 185 \<or> n = 186 \<or>
     (188 \<le> n \<and> n \<le> 190) \<or> (192 \<le> n \<and> n \<le> 214) \<or> (216 \<le> n \<and> n \<le> 246) \<or>
     (248 \<le> n \<and> n \<le> 255))"

text \<open>The simple lower-case mapping that \<open>re.IGNORECASE\<close> applies to a character of the
  text before it compares.\<close>

definition lower_ch :: "char \<Rightarrow> char" where
  "lower_ch c = (let n = (of_char c :: nat) in
     if (65 \<le> n \<and> n \<le> 90) \<or> (192 \<le> n \<and> n \<le> 222 \<and> n \<noteq> 215) then char_of (n + 32) else c)"

text \<open>\<open>str.upper\<close>. The program applies it to matched identifiers only, which the patterns
  restrict to ASCII letters, digits and underscores (lemmas \<open>name_group_ident\<close> and
  \<open>target_name_ascii\<close> below); the three code points below 256 whose upper case lies outside
  the range (181, 223, 255) are left as they are.\<close>

definition upper_ch :: "char \<Rightarrow> char" where
  "upper_ch c = (let n = (of_char c :: nat) in
     if (97 \<le> n \<and> n \<le> 122) \<or> (224 \<le> n \<and> n \<le> 254 \<and> n \<noteq> 247) then char_of (n - 32) else c)"

definition upper :: "string \<Rightarrow> string" where
  "upper s = map upper_ch s"

text \<open>\<open>s.startswith(p)\<close>, \<open>sep.join(xs)\<close> and the slice \<open>s[a:b]\<close> for offsets that are
  not negative.\<close>

definition startswith :: "string \<Rightarrow> string \<Rightarrow> bool" where
  "startswith s p = (take (length p) s = p)"

fun join :: "string \<Rightarrow> string list \<Rightarrow> string" where
  "join sep [] = []"
| "join sep [x] = x"
| "join sep (x # y # ys) = x @ sep @ join sep (y # ys)"

definition slice :: "string \<Rightarrow> nat \<Rightarrow> nat \<Rightarrow> string" where
  "slice s a b = take (b - a) (drop a s)"

subsection \<open>The pattern syntax and the matcher\<close>

text \<open>
  An \<open>atom\<close> consumes exactly one character: a literal, \<open>\s\<close>, or a bracket class (the
  flag says whether it is negated). All five patterns are compiled with \<open>re.IGNORECASE\<close>,
  so a literal and the members of a class are compared after lower-casing. (\<open>re.VERBOSE\<close>
  only changes how the pattern is written and \<open>re.DOTALL\<close> only the meaning of an
  unescaped dot, which no pattern contains.)
\<close>

datatype item = Ch char | Rng char char

datatype atom = Lit char | Space | Cls bool "item list"

datatype regex =
    Eps
  | Atom atom
  | Star atom
  | Plus atom
  | Opt regex
  | Seq regex regex
  | Alt regex regex
  | Grp string regex
  | WordB

fun item_ok :: "item \<Rightarrow> char \<Rightarrow> bool" where
  "item_ok (Ch p) c = (lower_ch c = lower_ch p)"
| "item_ok (Rng a b) c =
     list_ex (\<lambda>k. lower_ch c = lower_ch (char_of k)) [of_char a ..< Suc (of_char b)]"

fun atom_ok :: "atom \<Rightarrow> char \<Rightarrow> bool" where
  "atom_ok (Lit p) c = (lower_ch c = lower_ch p)"
| "atom_ok Space c = isspace c"
| "atom_ok (Cls neg its) c = (list_ex (\<lambda>it. item_ok it c) its \<noteq> neg)"

text \<open>\<open>\b\<close> at offset \<open>i\<close>: exactly one of the characters before and after is a word
  character; never in the empty text.\<close>

definition boundary :: "string \<Rightarrow> nat \<Rightarrow> bool" where
  "boundary s i = (s \<noteq> [] \<and>
     ((0 < i \<and> i \<le> length s \<and> isword (s ! (i - 1))) \<noteq> (i < length s \<and> isword (s ! i))))"

text \<open>The number of consecutive characters from offset \<open>i\<close> that an atom accepts.\<close>

definition reps :: "atom \<Rightarrow> string \<Rightarrow> nat \<Rightarrow> nat" where
  "reps a s i = length (takeWhile (atom_ok a) (drop i s))"

text \<open>
  \<open>run r s (i, c)\<close> lists every way in which \<open>r\<close> can match \<open>s\<close> from offset \<open>i\<close> with the
  groups \<open>c\<close> captured so far, as the end offset and the groups after it, in the order in
  which the backtracking matcher tries them: a greedy quantifier offers its longest
  repetition first, an alternation its left branch first. The head of the list is the
  match that Python reports.
\<close>

type_synonym caps = "string \<rightharpoonup> nat \<times> nat"

fun run :: "regex \<Rightarrow> string \<Rightarrow> nat \<times> caps \<Rightarrow> (nat \<times> caps) list" where
  "run Eps s (i, c) = [(i, c)]"
| "run (Atom a) s (i, c) = (if i < length s \<and> atom_ok a (s ! i) then [(Suc i, c)] else [])"
| "run (Star a) s (i, c) = map (\<lambda>k. (i + k, c)) (rev [0 ..< Suc (reps a s i)])"
| "run (Plus a) s (i, c) = map (\<lambda>k. (i + k, c)) (rev [1 ..< Suc (reps a s i)])"
| "run (Opt r) s (i, c) = run r s (i, c) @ [(i, c)]"
| "run (Seq r1 r2) s (i, c) = concat (map (run r2 s) (run r1 s (i, c)))"
| "run (Alt r1 r2) s (i, c) = run r1 s (i, c) @ run r2 s (i, c)"
| "run (Grp g r) s (i, c) = map (\<lambda>(e, c'). (e, c'(g \<mapsto> (i, e)))) (run r s (i, c))"
| "run WordB s (i, c) = (if boundary s i then [(i, c)] else [])"

text \<open>A match object: the text, the span of the whole match and the spans of the groups.\<close>

record match =
  m_string :: string
  m_start :: nat
  m_end :: nat
  m_groups :: caps

text \<open>\<open>m.group(g)\<close> is \<open>None\<close> and \<open>m.span(g)\<close> is \<open>(-1, -1)\<close> for a group that took no part
  in the match.\<close>

definition group :: "match \<Rightarrow> string \<Rightarrow> string option" where
  "group m g = (case m_groups m g of None \<Rightarrow> None | Some (a, b) \<Rightarrow> Some (slice (m_string m) a b))"

definition span :: "match \<Rightarrow> string \<Rightarrow> int \<times> int" where
  "span m g = (case m_groups m g of None \<Rightarrow> (- 1, - 1) | Some (a, b) \<Rightarrow> (int a, int b))"

text \<open>
  \<open>re.finditer\<close> from offset \<open>i\<close>: the leftmost match, then the search goes on where that
  match ended. After an empty match the model moves one character on; the patterns of this
  program match no empty text (lemma \<open>run_RE_progress\<close> below), so that branch is never
  taken.
\<close>

function finditer :: "regex \<Rightarrow> string \<Rightarrow> nat \<Rightarrow> match list" where
  "finditer re s i =
     (if length s < i then []
      else case run re s (i, Map.empty) of
             [] \<Rightarrow> finditer re s (Suc i)
           | (e, c) # _ \<Rightarrow>
               \<lparr>m_string = s, m_start = i, m_end = e, m_groups = c\<rparr>
                 # finditer re s (if i < e then e else Suc i))"
  by pat_completeness auto
termination
  by (relation "measure (\<lambda>(re, s, i). Suc (length s) - i)") auto

declare finditer.simps [simp del]

text \<open>Building a pattern from a list of names: \<open>re.escape\<close> of a name is the sequence of
  its characters as literals, \<open>'|'.join\<close> the alternation in list order.\<close>

fun seqs :: "regex list \<Rightarrow> regex" where
  "seqs [] = Eps"
| "seqs [r] = r"
| "seqs (r # rs) = Seq r (seqs rs)"

fun alts :: "regex list \<Rightarrow> regex" where
  "alts [] = Eps"
| "alts [r] = r"
| "alts (r # rs) = Alt r (alts rs)"

definition lits :: "string \<Rightarrow> regex" where
  "lits s = seqs (map (\<lambda>ch. Atom (Lit ch)) s)"

text \<open>\<open>sorted(names, key=len, reverse=True)\<close>: longest first, names of equal length in
  their original order.\<close>

definition sorted_len_rev :: "string list \<Rightarrow> string list" where
  "sorted_len_rev names = sort_key (\<lambda>n. - int (length n)) names"

subsection \<open>Reference mappings\<close>

definition TXN_MAP :: "(string \<times> string list) list" where
  "TXN_MAP =
    [(''ME21'', [''ME21N'']),
     (''ME22'', [''ME22N'']),
     (''ME23'', [''ME23N'']),
     (''ME24'', [''ME21N'', ''ME22N'']),
     (''ME25'', [''ME21N'']),
     (''ME27'', [''ME21N'']),
     (''ME28'', [''ME29N'']),
     (''ME51'', [''ME51N'']),
     (''ME52'', [''ME52N'']),
     (''ME53'', [''ME53N'']),
     (''ME54'', [''ME54N'']),
     (''ME59'', [''ME59N''])]"

text \<open>The inner dictionaries of the other tables are association lists from the keys
  \<open>new\<close>, \<open>note\<close> and \<open>obj\<close>.\<close>

type_synonym info = "(string \<times> string) list"

definition BAPI_MAP :: "(string \<times> info) list" where
  "BAPI_MAP =
    [(''BAPI_PO_CREATE'', [(''new'', ''BAPI_PO_CREATE1''), (''note'', ''Use Enjoy PO BAPI.'')]),
     (''BAPI_PO_GETDETAIL'', [(''new'', ''BAPI_PO_GETDETAIL1''), (''note'', ''Use Enjoy PO BAPI.'')]),
     (''BAPI_REQUISITION_CREATE'', [(''new'', ''BAPI_PR_CREATE''), (''note'', ''Use PR Enjoy BAPI.'')]),
     (''BAPI_REQUISITION_CHANGE'', [(''new'', ''BAPI_PR_CHANGE''), (''note'', ''Use PR Enjoy BAPI.'')]),
     (''BAPI_REQUISITION_DELETE'',
        [(''new'', ''BAPI_PR_CHANGE''), (''note'', ''Delete via CHANGE in Enjoy BAPI.'')]),
     (''BAPI_REQUISITION_GETDETAIL'', [(''new'', ''BAPI_PR_GETDETAIL''), (''note'', ''Use PR Enjoy BAPI.'')])]"

definition IDOC_MAP :: "(string \<times> info) list" where
  "IDOC_MAP =
    [(''IDOC_INPUT_PORDCR'',
        [(''new'', ''IDOC_INPUT_PORDCR1''), (''note'', ''Use new PO IDoc FM (BUS2012).'')]),
     (''IDOC_INPUT_PORDCH'',
        [(''new'', ''IDOC_INPUT_PORDCH''), (''note'', ''Ensure BUS2012 version is used.'')]),
     (''IDOC_INPUT_PREQCR'',
        [(''new'', ''IDOC_INPUT_PREQCR1''), (''note'', ''Use new PR IDoc FM (BUS2105).'')])]"

definition ARCHIVE_REPORT_MAP :: "(string \<times> info) list" where
  "ARCHIVE_REPORT_MAP =
    [(''RM06EV47'', [(''new'', ''RM06EV70''), (''obj'', ''MM_EKKO'')]),
     (''RM06EW47'', [(''new'', ''RM06EW70''), (''obj'', ''MM_EKKO'')]),
     (''RM06ED47'', [(''new'', ''RM06ED70''), (''obj'', ''MM_EKKO'')]),
     (''RM06BV47'', [(''new'', ''RM06BV70''), (''obj'', ''MM_EBAN'')]),
     (''RM06BW47'', [(''new'', ''RM06BW70''), (''obj'', ''MM_EBAN'')]),
     (''RM06BD47'', [(''new'', ''RM06BD70''), (''obj'', ''MM_EBAN'')]),
     (''RM06IW47'', [(''new'', ''RM06IW70''), (''obj'', ''MM_EINA'')]),
     (''RM06ID47'', [(''new'', ''RM06ID70''), (''obj'', ''MM_EINA'')])]"

definition ARCHIVE_30_PREFIXES :: "string list" where
  "ARCHIVE_30_PREFIXES = [''RM06E'', ''RM06B'', ''RM06I'']"

text \<open>\<open>READ_REPORTS\<close> is a Python set, and the names of \<open>FUNC_NAMES\<close> pass through one:
  the order in which the alternation lists names of equal length is not fixed by the
  source. The model lists them in the order of the source text.\<close>

definition READ_REPORTS :: "string list" where
  "READ_REPORTS = [''RM06ER30'', ''RM06BR30'', ''RM06IR30'']"

subsection \<open>Regexes\<close>

definition quote :: regex where
  "quote = Atom (Cls False [Ch sq, Ch dq])"

definition to_dot :: regex where
  "to_dot = Seq (Star (Cls True [Ch (CHR ''.'')])) (Atom (Lit (CHR ''.'')))"

definition TXN_NAMES :: "string list" where
  "TXN_NAMES = sorted_len_rev (map fst TXN_MAP)"

definition TXN_RE :: regex where
  "TXN_RE =
     Grp ''full'' (seqs
       [Grp ''stmt'' (Alt (seqs [lits ''CALL'', Plus Space, lits ''TRANSACTION'']) (lits ''SUBMIT'')),
        Plus Space,
        Opt quote, Grp ''name'' (alts (map lits TXN_NAMES)), Opt quote,
        Star Space, Opt (Atom (Lit (CHR ''.'')))])"

definition FUNC_NAMES :: "string list" where
  "FUNC_NAMES = sorted_len_rev (remdups (map fst BAPI_MAP @ map fst IDOC_MAP))"

definition FUNC_RE :: "regex option" where
  "FUNC_RE =
     (if FUNC_NAMES \<noteq> [] then
        Some (Grp ''full'' (seqs
          [lits ''CALL'', Plus Space, lits ''FUNCTION'',
           Plus Space,
           quote, Grp ''name'' (alts (map lits FUNC_NAMES)), quote,
           to_dot]))
      else None)"

definition ARCH47_NAMES :: "string list" where
  "ARCH47_NAMES = sorted_len_rev (map fst ARCHIVE_REPORT_MAP)"

definition ARCH47_RE :: regex where
  "ARCH47_RE =
     Grp ''full'' (seqs
       [Grp ''stmt'' (lits ''SUBMIT''),
        Plus Space,
        Grp ''name'' (alts (map lits ARCH47_NAMES)),
        WordB,
        to_dot])"

definition ARCH30_RE :: regex where
  "ARCH30_RE =
     Grp ''full'' (seqs
       [Grp ''stmt'' (lits ''SUBMIT''),
        Plus Space,
        Grp ''name'' (seqs [alts (map lits ARCHIVE_30_PREFIXES),
                            Star (Cls False [Rng (CHR ''A'') (CHR ''Z'')]), lits ''30'']),
        WordB,
        to_dot])"

definition READ_RE :: regex where
  "READ_RE =
     Grp ''full'' (seqs
       [Grp ''stmt'' (lits ''SUBMIT''),
        Plus Space,
        Grp ''name'' (alts (map lits READ_REPORTS)),
        WordB,
        to_dot])"

subsection \<open>Models\<close>

text \<open>A suggestion record: the dictionary that \<open>_add_hit\<close> builds. The key \<open>note\<close> is
  present only for a note that is not empty; \<open>suggested_fields\<close> is always \<open>None\<close>.\<close>

record hit =
  table :: string
  target_type :: string
  target_name :: string
  start_char_in_unit :: int
  end_char_in_unit :: int
  used_fields :: "string list"
  ambiguous :: bool
  suggested_statement :: string
  suggested_fields :: "string list option"
  note' :: "string option"

datatype error = AttributeError | IndexError | KeyError

subsection \<open>Helpers\<close>

text \<open>\<open>news[0]\<close> raises \<open>IndexError\<close> on the empty list.\<close>

definition first :: "string list \<Rightarrow> error + string" where
  "first news = (case news of [] \<Rightarrow> Inl IndexError | n # _ \<Rightarrow> Inr n)"

definition mk_suggested_statement :: "string \<Rightarrow> string \<Rightarrow> string list \<Rightarrow> string \<Rightarrow> error + string" where
  "mk_suggested_statement kind old news stmt =
     (let up = upper stmt in
      if kind = ''txn'' then
        (if length news = 1 then
           (if startswith up ''SUBMIT'' then
              (case first news of Inl e \<Rightarrow> Inl e | Inr n \<Rightarrow> Inr (''SUBMIT '' @ n @ ''.''))
            else
              (case first news of Inl e \<Rightarrow> Inl e
               | Inr n \<Rightarrow> Inr (''CALL TRANSACTION '' @ [sq] @ n @ [sq] @ ''.'')))
         else
           (if startswith up ''SUBMIT'' then
              Inr (join '' or '' (map (\<lambda>n. ''SUBMIT '' @ n @ ''.'') news))
            else
              Inr (join '' or '' (map (\<lambda>n. ''CALL TRANSACTION '' @ [sq] @ n @ [sq] @ ''.'') news))))
      else if kind = ''func'' then
        (case first news of Inl e \<Rightarrow> Inl e
         | Inr n \<Rightarrow> Inr (''CALL FUNCTION '' @ [sq] @ n @ [sq] @ ''.''))
      else if kind = ''report'' then
        (case first news of Inl e \<Rightarrow> Inl e | Inr n \<Rightarrow> Inr (''SUBMIT '' @ n @ ''.''))
      else Inr [])"

definition add_hit ::
  "hit list \<Rightarrow> int \<times> int \<Rightarrow> string \<Rightarrow> string \<Rightarrow> string \<Rightarrow> string option \<Rightarrow> bool \<Rightarrow> hit list" where
  "add_hit hits spn ttype tname suggested nt amb =
     hits @
       [\<lparr>table = ''None'',
         target_type = ttype,
         target_name = tname,
         start_char_in_unit = fst spn,
         end_char_in_unit = snd spn,
         used_fields = [],
         ambiguous = amb,
         suggested_statement = suggested,
         suggested_fields = None,
         note' = (case nt of None \<Rightarrow> None | Some n \<Rightarrow> if n \<noteq> [] then Some n else None)\<rparr>]"

text \<open>A \<open>for\<close> loop over the matches that updates the list of issues; an exception in the
  body ends it.\<close>

fun for_each :: "('a \<Rightarrow> 's \<Rightarrow> error + 's) \<Rightarrow> 'a list \<Rightarrow> 's \<Rightarrow> error + 's" where
  "for_each body [] st = Inr st"
| "for_each body (x # xs) st =
     (case body x st of Inl e \<Rightarrow> Inl e | Inr st' \<Rightarrow> for_each body xs st')"

text \<open>\<open>d[k]\<close> raises \<open>KeyError\<close> for a missing key; calling \<open>.upper()\<close> on the \<open>None\<close> of
  a group that took no part raises \<open>AttributeError\<close>.\<close>

definition getitem :: "('k \<times> 'v) list \<Rightarrow> 'k \<Rightarrow> error + 'v" where
  "getitem d k = (case map_of d k of None \<Rightarrow> Inl KeyError | Some v \<Rightarrow> Inr v)"

definition group_upper :: "match \<Rightarrow> string \<Rightarrow> error + string" where
  "group_upper m g = (case group m g of None \<Rightarrow> Inl AttributeError | Some t \<Rightarrow> Inr (upper t))"

text \<open>The bodies of the five loops of \<open>find_mm_purchasing_issues\<close>, in source order.\<close>

definition txn_body :: "match \<Rightarrow> hit list \<Rightarrow> error + hit list" where
  "txn_body m issues =
     (let stmt = group m ''stmt'' in
      case group_upper m ''name'' of Inl e \<Rightarrow> Inl e
      | Inr name \<Rightarrow>
          let repls = (case map_of TXN_MAP name of None \<Rightarrow> [] | Some r \<Rightarrow> r) in
          if repls \<noteq> [] then
            (let ambiguous = (length repls > 1) in
             case (case stmt of None \<Rightarrow> Inl AttributeError
                   | Some st \<Rightarrow> mk_suggested_statement ''txn'' name repls st) of
               Inl e \<Rightarrow> Inl e
             | Inr suggested \<Rightarrow>
                 let note0 = None;
                     note1 = (if name = ''ME25''
                              then Some ''ME25 functions available via ME21N (use Hold / Enjoy features).''
                              else note0);
                     note2 = (if name = ''ME27''
                              then Some ''PO without material: create via ME21N.''
                              else note1)
                 in Inr (add_hit issues (span m ''full'') ''Transaction'' name suggested note2 ambiguous))
          else Inr issues)"

definition func_body :: "match \<Rightarrow> hit list \<Rightarrow> error + hit list" where
  "func_body m issues =
     (case group_upper m ''name'' of Inl e \<Rightarrow> Inl e
      | Inr name \<Rightarrow>
          (let stmt = ''CALL FUNCTION'' in
           (case map_of BAPI_MAP name of
              Some entry \<Rightarrow>
                (case getitem entry ''new'' of Inl e \<Rightarrow> Inl e
                 | Inr new \<Rightarrow>
                     (let nt = map_of entry ''note'' in
                      (case mk_suggested_statement ''func'' name [new] stmt of Inl e \<Rightarrow> Inl e
                       | Inr suggested \<Rightarrow>
                           Inr (add_hit issues (span m ''full'') ''FunctionModule'' name suggested nt
                                  False))))
            | None \<Rightarrow>
                (case map_of IDOC_MAP name of
                   Some entry \<Rightarrow>
                     (case getitem entry ''new'' of Inl e \<Rightarrow> Inl e
                      | Inr new \<Rightarrow>
                          (let nt = map_of entry ''note'' in
                           (case mk_suggested_statement ''func'' name [new] stmt of Inl e \<Rightarrow> Inl e
                            | Inr suggested \<Rightarrow>
                                (let ambiguous = (new = name) in
                                 Inr (add_hit issues (span m ''full'') ''FunctionModule'' name
                                        suggested nt ambiguous)))))
                 | None \<Rightarrow> Inr issues))))"

definition arch47_body :: "match \<Rightarrow> hit list \<Rightarrow> error + hit list" where
  "arch47_body m issues =
     (case group_upper m ''name'' of Inl e \<Rightarrow> Inl e
      | Inr name \<Rightarrow>
          (case map_of ARCHIVE_REPORT_MAP name of
             None \<Rightarrow> Inr issues
           | Some entry \<Rightarrow>
               if entry \<noteq> [] then
                 (case getitem entry ''new'' of Inl e \<Rightarrow> Inl e
                  | Inr new \<Rightarrow>
                      (case mk_suggested_statement ''report'' name [new] ''SUBMIT'' of Inl e \<Rightarrow> Inl e
                       | Inr suggested \<Rightarrow>
                           (case getitem entry ''obj'' of Inl e \<Rightarrow> Inl e
                            | Inr obj \<Rightarrow>
                                (let nt = ''Archiving Object '' @ obj @ '': use *70 reports (EhP4+).'' in
                                 Inr (add_hit issues (span m ''full'') ''Report'' name suggested
                                        (Some nt) False)))))
               else Inr issues))"

definition arch30_body :: "match \<Rightarrow> hit list \<Rightarrow> error + hit list" where
  "arch30_body m issues =
     (case group_upper m ''name'' of Inl e \<Rightarrow> Inl e
      | Inr name \<Rightarrow>
          let family = take 5 name;
              family_note = ''Move to RM06**70 reports (EhP4+).'';
              suggested = ''SUBMIT <corresponding RM06**70 report>.''
          in Inr (add_hit issues (span m ''full'') ''Report'' name suggested (Some family_note) True))"

definition read_body :: "match \<Rightarrow> hit list \<Rightarrow> error + hit list" where
  "read_body m issues =
     (case group_upper m ''name'' of Inl e \<Rightarrow> Inl e
      | Inr name \<Rightarrow>
          let nt = ''Read programs still usable; consider using Archive Information System (SARI).'';
              suggested = ''Use transaction SARI for displaying archived MM Purchasing documents.''
          in Inr (add_hit issues (span m ''full'') ''Report'' name suggested (Some nt) True))"

text \<open>\<open>find_mm_purchasing_issues\<close>. The argument is optional: the guard \<open>if not txt\<close>
  answers for \<open>None\<close> as well as for the empty text.\<close>

definition find_mm_purchasing_issues :: "string option \<Rightarrow> error + hit list" where
  "find_mm_purchasing_issues txt =
     (case txt of
        None \<Rightarrow> Inr []
      | Some t \<Rightarrow>
          if t = [] then Inr []
          else
            (case for_each txn_body (finditer TXN_RE t 0) [] of Inl e \<Rightarrow> Inl e
             | Inr issues1 \<Rightarrow>
            (case (case FUNC_RE of None \<Rightarrow> Inr issues1
                   | Some re \<Rightarrow> for_each func_body (finditer re t 0) issues1) of Inl e \<Rightarrow> Inl e
             | Inr issues2 \<Rightarrow>
            (case for_each arch47_body (finditer ARCH47_RE t 0) issues2 of Inl e \<Rightarrow> Inl e
             | Inr issues3 \<Rightarrow>
            (case for_each arch30_body (finditer ARCH30_RE t 0) issues3 of Inl e \<Rightarrow> Inl e
             | Inr issues4 \<Rightarrow>
            for_each read_body (finditer READ_RE t 0) issues4)))))"

subsection \<open>API\<close>

text \<open>\<open>remediate_mm_purchasing\<close>: every unit is returned with the list of its issues
  (the key \<open>mb_txn_usage\<close> of the output object); a unit without code is scanned as the
  empty text.\<close>

record Unit =
  pgm_name :: string
  inc_name :: string
  type :: string
  name :: "string option"
  class_implementation :: "string option"
  start_line :: "int option"
  end_line :: "int option"
  code :: "string option"

fun remediate_mm_purchasing :: "Unit list \<Rightarrow> error + (Unit \<times> hit list) list" where
  "remediate_mm_purchasing [] = Inr []"
| "remediate_mm_purchasing (u # units) =
     (let src = (case code u of None \<Rightarrow> [] | Some t \<Rightarrow> if t = [] then [] else t) in
      case find_mm_purchasing_issues (Some src) of Inl e \<Rightarrow> Inl e
      | Inr issues \<Rightarrow>
          (case remediate_mm_purchasing units of Inl e \<Rightarrow> Inl e
           | Inr results \<Rightarrow> Inr ((u, issues) # results)))"

subsection \<open>What a pattern describes\<close>

text \<open>
  The texts that a pattern describes (\<open>\b\<close> and the group brackets take no text), whether
  every match of a pattern sets a group, and the least number of characters that a match
  takes. They are used to state and prove properties of the matcher; the program does not
  compute them.
\<close>

fun lang :: "regex \<Rightarrow> string set" where
  "lang Eps = {[]}"
| "lang (Atom a) = {[ch] | ch. atom_ok a ch}"
| "lang (Star a) = {w. \<forall>ch\<in>set w. atom_ok a ch}"
| "lang (Plus a) = {w. w \<noteq> [] \<and> (\<forall>ch\<in>set w. atom_ok a ch)}"
| "lang (Opt r) = insert [] (lang r)"
| "lang (Seq r1 r2) = {u @ v | u v. u \<in> lang r1 \<and> v \<in> lang r2}"
| "lang (Alt r1 r2) = lang r1 \<union> lang r2"
| "lang (Grp g r) = lang r"
| "lang WordB = {[]}"

fun binds :: "string \<Rightarrow> regex \<Rightarrow> bool" where
  "binds g (Grp g' r) = (g = g' \<or> binds g r)"
| "binds g (Seq r1 r2) = (binds g r1 \<or> binds g r2)"
| "binds g (Alt r1 r2) = (binds g r1 \<and> binds g r2)"
| "binds g r = False"

fun minlen :: "regex \<Rightarrow> nat" where
  "minlen (Atom a) = 1"
| "minlen (Plus a) = 1"
| "minlen (Seq r1 r2) = minlen r1 + minlen r2"
| "minlen (Alt r1 r2) = min (minlen r1) (minlen r2)"
| "minlen (Grp g r) = minlen r"
| "minlen r = 0"

text \<open>The texts that the groups of a given name bracket, and the characters of an
  identifier: ASCII letters, digits and the underscore.\<close>

fun glang :: "string \<Rightarrow> regex \<Rightarrow> string set" where
  "glang g (Grp g' r) = (if g = g' then lang r else glang g r)"
| "glang g (Seq r1 r2) = glang g r1 \<union> glang g r2"
| "glang g (Alt r1 r2) = glang g r1 \<union> glang g r2"
| "glang g (Opt r) = glang g r"
| "glang g r = {}"

definition is_ident :: "char \<Rightarrow> bool" where
  "is_ident ch = (let n = (of_char ch :: nat) in
     (48 \<le> n \<and> n \<le> 57) \<or> (65 \<le> n \<and> n \<le> 90) \<or> n = 95 \<or> (97 \<le> n \<and> n \<le> 122))"

text \<open>
  What a loop body of \<open>find_mm_purchasing_issues\<close> does for a match, said once for all
  five: it raises nothing, it keeps the issues found so far, it appends at most one record,
  and that record carries the fixed reserved fields, the category, the span of the match and
  the upper-cased text of the group \<open>name\<close>.
\<close>

definition emits :: "(match \<Rightarrow> hit list \<Rightarrow> error + hit list) \<Rightarrow> string \<Rightarrow> match \<Rightarrow> bool" where
  "emits body cat m \<longleftrightarrow>
     (\<forall>issues. body m issues = Inr (issues @ projr (body m []))) \<and>
     length (projr (body m [])) \<le> 1 \<and>
     (\<forall>h\<in>set (projr (body m [])).
        table h = ''None'' \<and> used_fields h = [] \<and> suggested_fields h = None \<and>
        target_type h = cat \<and>
        start_char_in_unit h = int (m_start m) \<and> end_char_in_unit h = int (m_end m) \<and>
        group_upper m ''name'' = Inr (target_name h))"

section \<open>Properties of the matcher\<close>

lemma reps_le: "reps a s i \<le> length s - i"
  unfolding reps_def by (metis length_drop length_takeWhile_le)

lemma in_run_Seq:
  "(e, c') \<in> set (run (Seq r1 r2) s (i, c)) \<longleftrightarrow>
   (\<exists>e1 c1. (e1, c1) \<in> set (run r1 s (i, c)) \<and> (e, c') \<in> set (run r2 s (e1, c1)))"
  by auto

lemma run_bounds:
  "(e, c') \<in> set (run r s (i, c)) \<Longrightarrow> i \<le> length s \<Longrightarrow> i \<le> e \<and> e \<le> length s"
proof (induction r arbitrary: i c e c')
  case (Star a)
  then show ?case using reps_le [of a s i] by auto
next
  case (Plus a)
  then show ?case using reps_le [of a s i] by auto
next
  case (Seq r1 r2)
  from Seq.prems(1) obtain e1 c1 where
    a: "(e1, c1) \<in> set (run r1 s (i, c))" and b: "(e, c') \<in> set (run r2 s (e1, c1))"
    unfolding in_run_Seq by blast
  from Seq.IH(1) [OF a Seq.prems(2)] have "i \<le> e1" "e1 \<le> length s" by simp_all
  moreover from Seq.IH(2) [OF b \<open>e1 \<le> length s\<close>] have "e1 \<le> e" "e \<le> length s" by simp_all
  ultimately show ?case by simp
qed (auto split: if_splits)

lemma run_progress:
  "(e, c') \<in> set (run r s (i, c)) \<Longrightarrow> i + minlen r \<le> e"
proof (induction r arbitrary: i c e c')
  case (Seq r1 r2)
  from Seq.prems(1) obtain e1 c1 where
    a: "(e1, c1) \<in> set (run r1 s (i, c))" and b: "(e, c') \<in> set (run r2 s (e1, c1))"
    unfolding in_run_Seq by blast
  from Seq.IH(1) [OF a] Seq.IH(2) [OF b] show ?case by simp
next
  case (Alt r1 r2)
  from Alt.prems have "(e, c') \<in> set (run r1 s (i, c)) \<or> (e, c') \<in> set (run r2 s (i, c))"
    by simp
  then show ?case
  proof
    assume "(e, c') \<in> set (run r1 s (i, c))"
    from Alt.IH(1) [OF this] show ?thesis by simp
  next
    assume "(e, c') \<in> set (run r2 s (i, c))"
    from Alt.IH(2) [OF this] show ?thesis by simp
  qed
next
  case (Opt r)
  from Opt.prems have "(e, c') \<in> set (run r s (i, c)) \<or> e = i" by auto
  then show ?case using Opt.IH by fastforce
next
  case (Grp g r)
  from Grp.prems obtain c0 where "(e, c0) \<in> set (run r s (i, c))" by auto
  from Grp.IH [OF this] show ?case by simp
qed (auto split: if_splits)

lemma slice_append:
  "i \<le> k \<Longrightarrow> k \<le> e \<Longrightarrow> slice s i k @ slice s k e = slice s i e"
proof -
  assume a: "i \<le> k" "k \<le> e"
  have "take ((k - i) + (e - k)) (drop i s) = take (k - i) (drop i s) @ take (e - k) (drop (k - i) (drop i s))"
    by (rule take_add)
  with a show ?thesis by (simp add: slice_def)
qed

lemma slice_one: "i < length s \<Longrightarrow> slice s i (Suc i) = [s ! i]"
  by (simp add: slice_def take_Suc_conv_app_nth Cons_nth_drop_Suc [symmetric])

lemma take_takeWhile_all:
  "k \<le> length (takeWhile P xs) \<Longrightarrow> \<forall>x\<in>set (take k xs). P x"
proof -
  assume k: "k \<le> length (takeWhile P xs)"
  have "take k xs = take k (takeWhile P xs @ dropWhile P xs)" by simp
  also have "\<dots> = take k (takeWhile P xs)" using k by (simp del: takeWhile_dropWhile_id)
  finally have "set (take k xs) \<subseteq> set (takeWhile P xs)" by (simp add: set_take_subset)
  then show ?thesis by (meson set_takeWhileD subsetD)
qed

lemma run_lang:
  "(e, c') \<in> set (run r s (i, c)) \<Longrightarrow> i \<le> length s \<Longrightarrow> slice s i e \<in> lang r"
proof (induction r arbitrary: i c e c')
  case Eps
  then show ?case by (simp add: slice_def)
next
  case (Atom a)
  then show ?case by (auto simp: slice_one split: if_splits)
next
  case (Star a)
  then obtain k where k: "e = i + k" "k \<le> reps a s i" by auto
  then show ?case using take_takeWhile_all [of k "atom_ok a" "drop i s"]
    by (simp add: slice_def reps_def)
next
  case (Plus a)
  then obtain k where k: "e = i + k" "k \<le> reps a s i" "1 \<le> k" by auto
  moreover have "reps a s i \<le> length s - i" by (rule reps_le)
  ultimately show ?case using take_takeWhile_all [of k "atom_ok a" "drop i s"] Plus.prems(2)
    by (auto simp add: slice_def reps_def)
next
  case (Opt r)
  then show ?case by (auto simp: slice_def)
next
  case (Seq r1 r2)
  from Seq.prems(1) obtain e1 c1 where
    a: "(e1, c1) \<in> set (run r1 s (i, c))" and b: "(e, c') \<in> set (run r2 s (e1, c1))"
    unfolding in_run_Seq by blast
  from run_bounds [OF a Seq.prems(2)] have 1: "i \<le> e1" "e1 \<le> length s" by simp_all
  from run_bounds [OF b 1(2)] have 2: "e1 \<le> e" by simp
  have "slice s i e1 \<in> lang r1" using Seq.IH(1) [OF a Seq.prems(2)] .
  moreover have "slice s e1 e \<in> lang r2" using Seq.IH(2) [OF b 1(2)] .
  moreover have "slice s i e = slice s i e1 @ slice s e1 e"
    using slice_append [OF 1(1) 2, of s] by simp
  ultimately show ?case by (simp del: append_eq_append_conv) blast
next
  case (Alt r1 r2)
  then show ?case by auto
next
  case (Grp g r)
  then show ?case by auto
next
  case WordB
  then show ?case by (auto simp: slice_def split: if_splits)
qed

text \<open>Groups: a group that is set stays set, a group on every path of the pattern is set
  by every match, and a group set during a match lies inside the match.\<close>

lemma run_keeps:
  "(e, c') \<in> set (run r s (i, c)) \<Longrightarrow> c g \<noteq> None \<Longrightarrow> c' g \<noteq> None"
proof (induction r arbitrary: i c e c')
  case (Seq r1 r2)
  from Seq.prems(1) obtain e1 c1 where
    a: "(e1, c1) \<in> set (run r1 s (i, c))" and b: "(e, c') \<in> set (run r2 s (e1, c1))"
    unfolding in_run_Seq by blast
  show ?case using Seq.IH(2) [OF b Seq.IH(1) [OF a Seq.prems(2)]] .
qed (auto split: if_splits)

lemma run_binds:
  "(e, c') \<in> set (run r s (i, c)) \<Longrightarrow> binds g r \<Longrightarrow> c' g \<noteq> None"
proof (induction r arbitrary: i c e c')
  case (Seq r1 r2)
  from Seq.prems(1) obtain e1 c1 where
    a: "(e1, c1) \<in> set (run r1 s (i, c))" and b: "(e, c') \<in> set (run r2 s (e1, c1))"
    unfolding in_run_Seq by blast
  from Seq.prems(2) consider "binds g r1" | "binds g r2" by auto
  then show ?case
  proof cases
    case 1
    from Seq.IH(1) [OF a 1] have "c1 g \<noteq> None" .
    then show ?thesis using run_keeps [OF b] by blast
  next
    case 2
    then show ?thesis using Seq.IH(2) [OF b] by blast
  qed
qed (auto split: if_splits)

lemma run_group_within:
  "(e, c') \<in> set (run r s (i, c)) \<Longrightarrow> i \<le> length s \<Longrightarrow>
   c' g = c g \<or> (\<exists>a b. c' g = Some (a, b) \<and> i \<le> a \<and> a \<le> b \<and> b \<le> e)"
proof (induction r arbitrary: i c e c')
  case (Seq r1 r2)
  from Seq.prems(1) obtain e1 c1 where
    a: "(e1, c1) \<in> set (run r1 s (i, c))" and b: "(e, c') \<in> set (run r2 s (e1, c1))"
    unfolding in_run_Seq by blast
  from run_bounds [OF a Seq.prems(2)] have 1: "i \<le> e1" "e1 \<le> length s" by simp_all
  from run_bounds [OF b 1(2)] have 2: "e1 \<le> e" by simp
  from Seq.IH(1) [OF a Seq.prems(2)] Seq.IH(2) [OF b 1(2)] 1 2 show ?case
    by (metis le_trans)
next
  case (Grp g' r)
  from Grp.prems(1) obtain c0 where
    a: "(e, c0) \<in> set (run r s (i, c))" and c': "c' = c0(g' \<mapsto> (i, e))" by auto
  from run_bounds [OF a Grp.prems(2)] have "i \<le> e" by simp
  then show ?case using Grp.IH [OF a Grp.prems(2)] c' by auto
next
  case (Alt r1 r2)
  from Alt.prems(1) have "(e, c') \<in> set (run r1 s (i, c)) \<or> (e, c') \<in> set (run r2 s (i, c))"
    by simp
  then show ?case using Alt.IH(1) [OF _ Alt.prems(2)] Alt.IH(2) [OF _ Alt.prems(2)] by blast
next
  case (Opt r)
  from Opt.prems(1) have "(e, c') \<in> set (run r s (i, c)) \<or> (e, c') = (i, c)"
    by auto
  then show ?case using Opt.IH [OF _ Opt.prems(2)] by blast
qed (auto split: if_splits)

lemma finditer_end: "length s < i \<Longrightarrow> finditer re s i = []"
  by (subst finditer.simps) simp

lemma finditer_skip:
  "\<not> length s < i \<Longrightarrow> run re s (i, Map.empty) = [] \<Longrightarrow> finditer re s i = finditer re s (Suc i)"
  by (subst finditer.simps) simp

lemma finditer_hit:
  "\<not> length s < i \<Longrightarrow> run re s (i, Map.empty) = (e, c) # rest \<Longrightarrow>
   finditer re s i =
     \<lparr>m_string = s, m_start = i, m_end = e, m_groups = c\<rparr> # finditer re s (if i < e then e else Suc i)"
  by (subst finditer.simps) simp

lemma finditer_mem:
  "m \<in> set (finditer re s k) \<Longrightarrow>
   k \<le> m_start m \<and> m_start m \<le> length s \<and> m_string m = s \<and>
   (m_end m, m_groups m) \<in> set (run re s (m_start m, Map.empty))"
proof (induction re s k rule: finditer.induct)
  case (1 re s i)
  show ?case
  proof (cases "length s < i")
    case True
    then show ?thesis using "1.prems" by (simp add: finditer_end)
  next
    case False
    show ?thesis
    proof (cases "run re s (i, Map.empty)")
      case Nil
      with False "1.prems" have "m \<in> set (finditer re s (Suc i))" by (simp add: finditer_skip)
      from "1.IH"(1) [OF False Nil this] show ?thesis by simp
    next
      case (Cons x rest)
      obtain e c where x: "x = (e, c)" by (cases x)
      let ?k = "if i < e then e else Suc i"
      from False Cons x "1.prems" have
        "m = \<lparr>m_string = s, m_start = i, m_end = e, m_groups = c\<rparr> \<or> m \<in> set (finditer re s ?k)"
        by (simp add: finditer_hit)
      then show ?thesis
      proof
        assume "m = \<lparr>m_string = s, m_start = i, m_end = e, m_groups = c\<rparr>"
        then show ?thesis using False Cons x by simp
      next
        assume "m \<in> set (finditer re s ?k)"
        from "1.IH"(2) [OF False Cons x [symmetric] this] show ?thesis by (auto split: if_splits)
      qed
    qed
  qed
qed

lemma finditer_sorted:
  "sorted_wrt (\<lambda>m m'. m_start m < m_start m' \<and> m_end m \<le> m_start m') (finditer re s k)"
proof (induction re s k rule: finditer.induct)
  case (1 re s i)
  show ?case
  proof (cases "length s < i")
    case True
    then show ?thesis by (simp add: finditer_end)
  next
    case False
    show ?thesis
    proof (cases "run re s (i, Map.empty)")
      case Nil
      from "1.IH"(1) [OF False Nil] show ?thesis using False Nil by (simp add: finditer_skip)
    next
      case (Cons x rest)
      obtain e c where x: "x = (e, c)" by (cases x)
      let ?k = "if i < e then e else Suc i"
      have "(e, c) \<in> set (run re s (i, Map.empty))" using Cons x by simp
      from run_bounds [OF this] False have ie: "i \<le> e" by simp
      have "\<forall>m'\<in>set (finditer re s ?k). i < m_start m' \<and> e \<le> m_start m'"
        using finditer_mem [of _ re s ?k] ie by (fastforce split: if_splits)
      with "1.IH"(2) [OF False Cons x [symmetric]] show ?thesis
        using False Cons x by (simp add: finditer_hit)
    qed
  qed
qed

lemma run_Grp_top: "(e, c') \<in> set (run (Grp g r) s (i, c)) \<Longrightarrow> c' g = Some (i, e)"
  by auto

text \<open>What every match found by a pattern of the shape \<open>(?P<full>...)\<close> satisfies.\<close>

lemma finditer_match:
  assumes "m \<in> set (finditer (Grp ''full'' r) s k)"
  shows "m_string m = s" and "m_start m \<le> m_end m" and "m_end m \<le> length s"
    and "m_groups m ''full'' = Some (m_start m, m_end m)"
    and "slice s (m_start m) (m_end m) \<in> lang r"
    and "binds g r \<Longrightarrow> m_groups m g \<noteq> None"
    and "m_groups m g = Some (a, b) \<Longrightarrow> m_start m \<le> a \<and> a \<le> b \<and> b \<le> m_end m"
proof -
  from finditer_mem [OF assms] have
    le: "m_start m \<le> length s" and str: "m_string m = s" and
    run: "(m_end m, m_groups m) \<in> set (run (Grp ''full'' r) s (m_start m, Map.empty))"
    by simp_all
  show "m_string m = s" by (rule str)
  from run_bounds [OF run le] show "m_start m \<le> m_end m" and "m_end m \<le> length s" by simp_all
  from run_Grp_top [OF run] show "m_groups m ''full'' = Some (m_start m, m_end m)" .
  from run_lang [OF run le] show "slice s (m_start m) (m_end m) \<in> lang r" by simp
  show "binds g r \<Longrightarrow> m_groups m g \<noteq> None" using run_binds [OF run, of g] by simp
  show "m_groups m g = Some (a, b) \<Longrightarrow> m_start m \<le> a \<and> a \<le> b \<and> b \<le> m_end m"
    using run_group_within [OF run le, of g] by auto
qed

section \<open>Properties of the loops\<close>

lemma for_each_emits:
  "\<forall>m\<in>set ms. emits body cat m \<Longrightarrow>
   for_each body ms issues = Inr (issues @ concat (map (\<lambda>m. projr (body m [])) ms))"
proof (induction ms arbitrary: issues)
  case Nil
  then show ?case by simp
next
  case (Cons m ms)
  have "emits body cat m" using Cons.prems by simp
  then have step: "body m issues = Inr (issues @ projr (body m []))"
    unfolding emits_def by blast
  from Cons.prems have "\<forall>m\<in>set ms. emits body cat m" by simp
  from Cons.IH [OF this, of "issues @ projr (body m [])"]
  have "for_each body ms (issues @ projr (body m [])) =
        Inr (issues @ projr (body m []) @ concat (map (\<lambda>m. projr (body m [])) ms))"
    by simp
  moreover have "for_each body (m # ms) issues = for_each body ms (issues @ projr (body m []))"
    by (simp only: for_each.simps step sum.case)
  ultimately show ?case by (simp only: list.map concat.simps)
qed

lemma mk_txn_total: "\<exists>x. mk_suggested_statement ''txn'' old news st = Inr x"
  by (cases news) (simp_all add: mk_suggested_statement_def first_def Let_def)

lemma txn_emits:
  assumes "m_groups m ''name'' \<noteq> None" and "m_groups m ''stmt'' \<noteq> None"
    and "m_groups m ''full'' = Some (m_start m, m_end m)"
  shows "emits txn_body ''Transaction'' m"
proof -
  from assms obtain a b a' b' where g: "m_groups m ''name'' = Some (a, b)" "m_groups m ''stmt'' = Some (a', b')"
    by auto
  obtain x where x: "mk_suggested_statement ''txn'' (upper (slice (m_string m) a b))
      (case map_of TXN_MAP (upper (slice (m_string m) a b)) of None \<Rightarrow> [] | Some r \<Rightarrow> r)
      (slice (m_string m) a' b') = Inr x"
    using mk_txn_total by blast
  show ?thesis
    using g x assms(3)
    by (simp add: emits_def txn_body_def group_upper_def group_def span_def add_hit_def Let_def)
qed

lemma entry_new:
  "map_of BAPI_MAP k = Some entry \<Longrightarrow> \<exists>v. getitem entry ''new'' = Inr v"
  "map_of IDOC_MAP k = Some entry \<Longrightarrow> \<exists>v. getitem entry ''new'' = Inr v"
  "map_of ARCHIVE_REPORT_MAP k = Some entry \<Longrightarrow>
     entry \<noteq> [] \<and> (\<exists>v. getitem entry ''new'' = Inr v) \<and> (\<exists>v. getitem entry ''obj'' = Inr v)"
  by (auto simp: BAPI_MAP_def IDOC_MAP_def ARCHIVE_REPORT_MAP_def getitem_def split: if_splits)

lemma mk_one:
  "mk_suggested_statement ''func'' old [n] st = Inr (''CALL FUNCTION '' @ [sq] @ n @ [sq] @ ''.'')"
  "mk_suggested_statement ''report'' old [n] st = Inr (''SUBMIT '' @ n @ ''.'')"
  by (simp_all add: mk_suggested_statement_def first_def)

lemma func_emits:
  assumes "m_groups m ''name'' \<noteq> None"
    and "m_groups m ''full'' = Some (m_start m, m_end m)"
  shows "emits func_body ''FunctionModule'' m"
proof -
  from assms obtain a b where g: "m_groups m ''name'' = Some (a, b)" by auto
  let ?n = "upper (slice (m_string m) a b)"
  show ?thesis
  proof (cases "map_of BAPI_MAP ?n")
    case (Some entry)
    from entry_new(1) [OF Some] obtain v where "getitem entry ''new'' = Inr v" by blast
    then show ?thesis using g Some assms(2)
      by (simp add: emits_def func_body_def group_upper_def group_def span_def add_hit_def mk_one)
  next
    case None
    show ?thesis
    proof (cases "map_of IDOC_MAP ?n")
      case (Some entry)
      from entry_new(2) [OF Some] obtain v where "getitem entry ''new'' = Inr v" by blast
      then show ?thesis using g None Some assms(2)
        by (simp add: emits_def func_body_def group_upper_def group_def span_def add_hit_def mk_one)
    next
      case None2: None
      then show ?thesis using g None
        by (simp add: emits_def func_body_def group_upper_def group_def)
    qed
  qed
qed

lemma arch47_emits:
  assumes "m_groups m ''name'' \<noteq> None"
    and "m_groups m ''full'' = Some (m_start m, m_end m)"
  shows "emits arch47_body ''Report'' m"
proof -
  from assms obtain a b where g: "m_groups m ''name'' = Some (a, b)" by auto
  let ?n = "upper (slice (m_string m) a b)"
  show ?thesis
  proof (cases "map_of ARCHIVE_REPORT_MAP ?n")
    case (Some entry)
    from entry_new(3) [OF Some] obtain v w where
      "entry \<noteq> []" "getitem entry ''new'' = Inr v" "getitem entry ''obj'' = Inr w" by blast
    then show ?thesis using g Some assms(2)
      by (simp add: emits_def arch47_body_def group_upper_def group_def span_def add_hit_def mk_one)
  next
    case None
    then show ?thesis using g
      by (simp add: emits_def arch47_body_def group_upper_def group_def)
  qed
qed

lemma arch30_emits:
  assumes "m_groups m ''name'' \<noteq> None"
    and "m_groups m ''full'' = Some (m_start m, m_end m)"
  shows "emits arch30_body ''Report'' m"
  using assms
  by (auto simp: emits_def arch30_body_def group_upper_def group_def span_def add_hit_def)

lemma read_emits:
  assumes "m_groups m ''name'' \<noteq> None"
    and "m_groups m ''full'' = Some (m_start m, m_end m)"
  shows "emits read_body ''Report'' m"
  using assms
  by (auto simp: emits_def read_body_def group_upper_def group_def span_def add_hit_def)

lemma FUNC_NAMES_nonempty: "FUNC_NAMES \<noteq> []"
  by (simp add: FUNC_NAMES_def sorted_len_rev_def BAPI_MAP_def IDOC_MAP_def)

lemma RE_shapes:
  "\<exists>r. TXN_RE = Grp ''full'' r \<and> binds ''name'' r \<and> binds ''stmt'' r \<and> 0 < minlen r"
  "\<exists>r. FUNC_RE = Some (Grp ''full'' r) \<and> binds ''name'' r \<and> 0 < minlen r"
  "\<exists>r. ARCH47_RE = Grp ''full'' r \<and> binds ''name'' r \<and> 0 < minlen r"
  "\<exists>r. ARCH30_RE = Grp ''full'' r \<and> binds ''name'' r \<and> 0 < minlen r"
  "\<exists>r. READ_RE = Grp ''full'' r \<and> binds ''name'' r \<and> 0 < minlen r"
  by (simp_all add: TXN_RE_def FUNC_RE_def ARCH47_RE_def ARCH30_RE_def READ_RE_def
      FUNC_NAMES_nonempty)

lemma RE_minlen:
  "0 < minlen TXN_RE"
  "FUNC_RE = Some re \<Longrightarrow> 0 < minlen re"
  "0 < minlen ARCH47_RE"
  "0 < minlen ARCH30_RE"
  "0 < minlen READ_RE"
  by (auto simp: TXN_RE_def FUNC_RE_def ARCH47_RE_def ARCH30_RE_def READ_RE_def
      FUNC_NAMES_nonempty)

lemma run_RE_progress:
  assumes "re = TXN_RE \<or> FUNC_RE = Some re \<or> re = ARCH47_RE \<or> re = ARCH30_RE \<or> re = READ_RE"
    and "(e, c') \<in> set (run re s (i, c))"
  shows "i < e"
proof -
  from assms(1) have "0 < minlen re" using RE_minlen by blast
  with run_progress [OF assms(2)] show ?thesis by simp
qed

lemma finditer_Nil: "0 < minlen re \<Longrightarrow> finditer re [] k = []"
proof (rule ccontr)
  assume pos: "0 < minlen re" and "finditer re [] k \<noteq> []"
  then obtain m where "m \<in> set (finditer re [] k)" by (cases "finditer re [] k") auto
  from finditer_mem [OF this] have
    a: "m_start m \<le> length ([]::string)" and
    b: "(m_end m, m_groups m) \<in> set (run re [] (m_start m, Map.empty))" by blast+
  from run_bounds [OF b a] run_progress [OF b] pos show False by simp
qed

lemma match_emits:
  "m \<in> set (finditer TXN_RE t k) \<Longrightarrow> emits txn_body ''Transaction'' m"
  "FUNC_RE = Some re \<Longrightarrow> m \<in> set (finditer re t k) \<Longrightarrow> emits func_body ''FunctionModule'' m"
  "m \<in> set (finditer ARCH47_RE t k) \<Longrightarrow> emits arch47_body ''Report'' m"
  "m \<in> set (finditer ARCH30_RE t k) \<Longrightarrow> emits arch30_body ''Report'' m"
  "m \<in> set (finditer READ_RE t k) \<Longrightarrow> emits read_body ''Report'' m"
proof -
  show "m \<in> set (finditer TXN_RE t k) \<Longrightarrow> emits txn_body ''Transaction'' m"
    using RE_shapes(1) finditer_match(4,6) [of m _ t k] txn_emits [of m] by metis
  show "FUNC_RE = Some re \<Longrightarrow> m \<in> set (finditer re t k) \<Longrightarrow> emits func_body ''FunctionModule'' m"
    using RE_shapes(2) finditer_match(4,6) [of m _ t k] func_emits [of m] by (metis option.inject)
  show "m \<in> set (finditer ARCH47_RE t k) \<Longrightarrow> emits arch47_body ''Report'' m"
    using RE_shapes(3) finditer_match(4,6) [of m _ t k] arch47_emits [of m] by metis
  show "m \<in> set (finditer ARCH30_RE t k) \<Longrightarrow> emits arch30_body ''Report'' m"
    using RE_shapes(4) finditer_match(4,6) [of m _ t k] arch30_emits [of m] by metis
  show "m \<in> set (finditer READ_RE t k) \<Longrightarrow> emits read_body ''Report'' m"
    using RE_shapes(5) finditer_match(4,6) [of m _ t k] read_emits [of m] by metis
qed

text \<open>A loop that starts from the issues found so far appends what it would find alone.\<close>

lemma for_each_alone:
  assumes "\<forall>m\<in>set ms. emits body cat m"
  shows "for_each body ms issues = Inr (issues @ projr (for_each body ms []))"
  using for_each_emits [OF assms, of issues] for_each_emits [OF assms, of "[]"] by simp

lemma pass_hit:
  assumes "\<forall>m\<in>set ms. emits body cat m" and "for_each body ms [] = Inr p" and "h \<in> set p"
  shows "\<exists>m\<in>set ms. body m [] = Inr [h] \<and> emits body cat m"
proof -
  from for_each_emits [OF assms(1), of "[]"] assms(2)
  have "p = concat (map (\<lambda>m. projr (body m [])) ms)" by simp
  with assms(3) obtain m where m: "m \<in> set ms" "h \<in> set (projr (body m []))" by auto
  from assms(1) m(1) have e: "emits body cat m" by blast
  then have "length (projr (body m [])) \<le> 1" and "body m [] = Inr ([] @ projr (body m []))"
    unfolding emits_def by blast+
  with m(2) have "body m [] = Inr [h]"
    by (cases "projr (body m [])") auto
  with m(1) e show ?thesis by blast
qed

lemma pass_sorted:
  assumes "\<forall>m\<in>set ms. emits body cat m" and "for_each body ms [] = Inr p"
    and "sorted_wrt (\<lambda>m m'. m_start m < m_start m' \<and> m_end m \<le> m_start m') ms"
  shows "sorted_wrt (\<lambda>h h'. start_char_in_unit h < start_char_in_unit h' \<and>
                            end_char_in_unit h \<le> start_char_in_unit h') p"
proof -
  let ?f = "\<lambda>m. projr (body m [])"
  let ?R = "\<lambda>h h'. start_char_in_unit h < start_char_in_unit h' \<and>
                    end_char_in_unit h \<le> start_char_in_unit h'"
  have pos: "\<And>m h. m \<in> set ms \<Longrightarrow> h \<in> set (?f m) \<Longrightarrow>
      start_char_in_unit h = int (m_start m) \<and> end_char_in_unit h = int (m_end m)"
    using assms(1) unfolding emits_def by blast
  have one: "\<And>m. m \<in> set ms \<Longrightarrow> length (?f m) \<le> 1"
    using assms(1) unfolding emits_def by blast
  have "sorted_wrt ?R (concat (map ?f ms))"
    using assms(3) pos one
  proof (induction ms)
    case Nil
    then show ?case by simp
  next
    case (Cons m ms)
    have a: "sorted_wrt ?R (?f m)"
      using Cons.prems(3) [of m] by (cases "?f m") auto
    have b: "sorted_wrt ?R (concat (map ?f ms))"
      using Cons.IH Cons.prems by simp
    have c: "\<forall>h\<in>set (?f m). \<forall>h'\<in>set (concat (map ?f ms)). ?R h h'"
    proof (intro ballI)
      fix h h' assume h: "h \<in> set (?f m)" and "h' \<in> set (concat (map ?f ms))"
      then obtain m' where m': "m' \<in> set ms" "h' \<in> set (?f m')" by auto
      from Cons.prems(1) m'(1) have "m_start m < m_start m' \<and> m_end m \<le> m_start m'" by simp
      moreover from Cons.prems(2) [of m h] h have
        "start_char_in_unit h = int (m_start m) \<and> end_char_in_unit h = int (m_end m)" by simp
      moreover from Cons.prems(2) [of m' h'] m' have
        "start_char_in_unit h' = int (m_start m') \<and> end_char_in_unit h' = int (m_end m')" by simp
      ultimately show "?R h h'" by simp
    qed
    from a b c show ?case by (simp add: sorted_wrt_append)
  qed
  moreover from for_each_emits [OF assms(1), of "[]"] assms(2)
  have "p = concat (map ?f ms)" by simp
  ultimately show ?thesis by simp
qed

text \<open>The scan is the five loops run one after the other, and each loop adds what it
  finds when it is run alone.\<close>

lemma scan_passes:
  "\<exists>re p1 p2 p3 p4 p5.
     FUNC_RE = Some re \<and>
     for_each txn_body (finditer TXN_RE t 0) [] = Inr p1 \<and>
     for_each func_body (finditer re t 0) [] = Inr p2 \<and>
     for_each arch47_body (finditer ARCH47_RE t 0) [] = Inr p3 \<and>
     for_each arch30_body (finditer ARCH30_RE t 0) [] = Inr p4 \<and>
     for_each read_body (finditer READ_RE t 0) [] = Inr p5 \<and>
     find_mm_purchasing_issues (Some t) = Inr (p1 @ p2 @ p3 @ p4 @ p5)"
proof -
  from RE_shapes(2) obtain re where re: "FUNC_RE = Some re" by blast
  let ?P = "\<lambda>body ms. concat (map (\<lambda>m. projr (body m [])) ms)"
  let ?p1 = "?P txn_body (finditer TXN_RE t 0)"
  let ?p2 = "?P func_body (finditer re t 0)"
  let ?p3 = "?P arch47_body (finditer ARCH47_RE t 0)"
  let ?p4 = "?P arch30_body (finditer ARCH30_RE t 0)"
  let ?p5 = "?P read_body (finditer READ_RE t 0)"
  have 1: "for_each txn_body (finditer TXN_RE t 0) issues = Inr (issues @ ?p1)" for issues
    by (rule for_each_emits) (blast intro: match_emits(1))
  have 2: "for_each func_body (finditer re t 0) issues = Inr (issues @ ?p2)" for issues
    by (rule for_each_emits) (blast intro: match_emits(2) [OF re])
  have 3: "for_each arch47_body (finditer ARCH47_RE t 0) issues = Inr (issues @ ?p3)" for issues
    by (rule for_each_emits) (blast intro: match_emits(3))
  have 4: "for_each arch30_body (finditer ARCH30_RE t 0) issues = Inr (issues @ ?p4)" for issues
    by (rule for_each_emits) (blast intro: match_emits(4))
  have 5: "for_each read_body (finditer READ_RE t 0) issues = Inr (issues @ ?p5)" for issues
    by (rule for_each_emits) (blast intro: match_emits(5))
  have "find_mm_purchasing_issues (Some t) = Inr (?p1 @ ?p2 @ ?p3 @ ?p4 @ ?p5)"
  proof (cases "t = []")
    case True
    have "?p1 = []" "?p2 = []" "?p3 = []" "?p4 = []" "?p5 = []"
      using RE_minlen(1,3,4,5) RE_minlen(2) [OF re] True by (simp_all add: finditer_Nil)
    then show ?thesis using True by (simp add: find_mm_purchasing_issues_def)
  next
    case False
    then show ?thesis by (simp add: find_mm_purchasing_issues_def re 1 2 3 4 5)
  qed
  with re 1 [of "[]"] 2 [of "[]"] 3 [of "[]"] 4 [of "[]"] 5 [of "[]"] show ?thesis
    by (intro exI [of _ re] exI [of _ ?p1] exI [of _ ?p2] exI [of _ ?p3] exI [of _ ?p4]
        exI [of _ ?p5]) simp
qed

text \<open>Every record of a scan was appended by one of the five loop bodies, for a match that
  the pattern of that loop found in the text.\<close>

lemma hit_origin:
  assumes "find_mm_purchasing_issues (Some t) = Inr hs" and "h \<in> set hs"
  shows "(\<exists>m\<in>set (finditer TXN_RE t 0). txn_body m [] = Inr [h] \<and> emits txn_body ''Transaction'' m) \<or>
         (\<exists>re. FUNC_RE = Some re \<and>
            (\<exists>m\<in>set (finditer re t 0). func_body m [] = Inr [h] \<and> emits func_body ''FunctionModule'' m)) \<or>
         (\<exists>m\<in>set (finditer ARCH47_RE t 0). arch47_body m [] = Inr [h] \<and> emits arch47_body ''Report'' m) \<or>
         (\<exists>m\<in>set (finditer ARCH30_RE t 0). arch30_body m [] = Inr [h] \<and> emits arch30_body ''Report'' m) \<or>
         (\<exists>m\<in>set (finditer READ_RE t 0). read_body m [] = Inr [h] \<and> emits read_body ''Report'' m)"
proof -
  from scan_passes [of t] obtain re p1 p2 p3 p4 p5 where
    re: "FUNC_RE = Some re" and
    p: "for_each txn_body (finditer TXN_RE t 0) [] = Inr p1"
       "for_each func_body (finditer re t 0) [] = Inr p2"
       "for_each arch47_body (finditer ARCH47_RE t 0) [] = Inr p3"
       "for_each arch30_body (finditer ARCH30_RE t 0) [] = Inr p4"
       "for_each read_body (finditer READ_RE t 0) [] = Inr p5" and
    f: "find_mm_purchasing_issues (Some t) = Inr (p1 @ p2 @ p3 @ p4 @ p5)"
    by blast
  from f assms have "h \<in> set p1 \<or> h \<in> set p2 \<or> h \<in> set p3 \<or> h \<in> set p4 \<or> h \<in> set p5" by auto
  then show ?thesis
  proof (elim disjE)
    assume "h \<in> set p1"
    from pass_hit [OF _ p(1) this, of "''Transaction''"] match_emits(1) show ?thesis by blast
  next
    assume "h \<in> set p2"
    from pass_hit [OF _ p(2) this, of "''FunctionModule''"] match_emits(2) [OF re] re show ?thesis by blast
  next
    assume "h \<in> set p3"
    from pass_hit [OF _ p(3) this, of "''Report''"] match_emits(3) show ?thesis by blast
  next
    assume "h \<in> set p4"
    from pass_hit [OF _ p(4) this, of "''Report''"] match_emits(4) show ?thesis by blast
  next
    assume "h \<in> set p5"
    from pass_hit [OF _ p(5) this, of "''Report''"] match_emits(5) show ?thesis by blast
  qed
qed

section \<open>Evaluating a scan\<close>

text \<open>
  Equations that let the simplifier run a scan of a concrete text: the case mappings on the
  bits of a character, the patterns kept folded while the search skips the offsets at which
  no match can start (a match of a pattern starts with the first letter of its keyword), and
  unfolded only where one can.
\<close>

lemma lower_ch_Char: "lower_ch (Char b0 b1 b2 b3 b4 b5 b6 b7) =
  (if b6 \<and> \<not> b5 \<and> \<not> (b4 \<and> b2 \<and> b1 \<and> b0 \<and> (b3 \<or> b7)) \<and> (b7 \<or> ((b0 \<or> b1 \<or> b2 \<or> b3 \<or> b4) \<and> \<not> (b4 \<and> b3 \<and> (b2 \<or> (b1 \<and> b0)))))
   then Char b0 b1 b2 b3 b4 True b6 b7 else Char b0 b1 b2 b3 b4 b5 b6 b7)"
  by (cases b0; cases b1; cases b2; cases b3; cases b4; cases b5; cases b6; cases b7; simp add: lower_ch_def char_of_eq_iff)

lemma upper_ch_Char: "upper_ch (Char b0 b1 b2 b3 b4 b5 b6 b7) =
  (if b6 \<and> b5 \<and> \<not> (b4 \<and> b2 \<and> b1 \<and> b0 \<and> (b3 \<or> b7)) \<and> (b7 \<or> ((b0 \<or> b1 \<or> b2 \<or> b3 \<or> b4) \<and> \<not> (b4 \<and> b3 \<and> (b2 \<or> (b1 \<and> b0)))))
   then Char b0 b1 b2 b3 b4 False b6 b7 else Char b0 b1 b2 b3 b4 b5 b6 b7)"
  by (cases b0; cases b1; cases b2; cases b3; cases b4; cases b5; cases b6; cases b7; simp add: upper_ch_def char_of_eq_iff)

text \<open>The lists of names that the patterns are built from, sorted.\<close>

lemma NAMES_eval:
  "TXN_NAMES = [''ME21'', ''ME22'', ''ME23'', ''ME24'', ''ME25'', ''ME27'', ''ME28'',
                ''ME51'', ''ME52'', ''ME53'', ''ME54'', ''ME59'']"
  "FUNC_NAMES = [''BAPI_REQUISITION_GETDETAIL'', ''BAPI_REQUISITION_CREATE'',
                 ''BAPI_REQUISITION_CHANGE'', ''BAPI_REQUISITION_DELETE'',
                 ''BAPI_PO_GETDETAIL'', ''IDOC_INPUT_PORDCR'', ''IDOC_INPUT_PORDCH'',
                 ''IDOC_INPUT_PREQCR'', ''BAPI_PO_CREATE'']"
  "ARCH47_NAMES = [''RM06EV47'', ''RM06EW47'', ''RM06ED47'', ''RM06BV47'', ''RM06BW47'',
                   ''RM06BD47'', ''RM06IW47'', ''RM06ID47'']"
  by (simp_all add: TXN_NAMES_def FUNC_NAMES_def ARCH47_NAMES_def sorted_len_rev_def
      TXN_MAP_def BAPI_MAP_def IDOC_MAP_def ARCHIVE_REPORT_MAP_def)

text \<open>The pattern of the second loop always exists.\<close>

lemma FUNC_RE_the: "FUNC_RE = Some (the FUNC_RE)"
proof -
  from RE_shapes(2) obtain r where "FUNC_RE = Some (Grp ''full'' r)" by blast
  then show ?thesis by (metis option.sel)
qed

lemma run_unfold:
  "run TXN_RE s x = run (Grp ''full'' (seqs
       [Grp ''stmt'' (Alt (seqs [lits ''CALL'', Plus Space, lits ''TRANSACTION'']) (lits ''SUBMIT'')),
        Plus Space,
        Opt quote, Grp ''name'' (alts (map lits TXN_NAMES)), Opt quote,
        Star Space, Opt (Atom (Lit (CHR ''.'')))])) s x"
  "run (the FUNC_RE) s x = run (Grp ''full'' (seqs
          [lits ''CALL'', Plus Space, lits ''FUNCTION'',
           Plus Space,
           quote, Grp ''name'' (alts (map lits FUNC_NAMES)), quote,
           to_dot])) s x"
  "run ARCH47_RE s x = run (Grp ''full'' (seqs
       [Grp ''stmt'' (lits ''SUBMIT''),
        Plus Space,
        Grp ''name'' (alts (map lits ARCH47_NAMES)),
        WordB,
        to_dot])) s x"
  "run ARCH30_RE s x = run (Grp ''full'' (seqs
       [Grp ''stmt'' (lits ''SUBMIT''),
        Plus Space,
        Grp ''name'' (seqs [alts (map lits ARCHIVE_30_PREFIXES),
                            Star (Cls False [Rng (CHR ''A'') (CHR ''Z'')]), lits ''30'']),
        WordB,
        to_dot])) s x"
  "run READ_RE s x = run (Grp ''full'' (seqs
       [Grp ''stmt'' (lits ''SUBMIT''),
        Plus Space,
        Grp ''name'' (alts (map lits READ_REPORTS)),
        WordB,
        to_dot])) s x"
  by (simp_all add: TXN_RE_def FUNC_RE_def FUNC_NAMES_nonempty ARCH47_RE_def ARCH30_RE_def READ_RE_def)

lemma first_char:
  "i < length s \<Longrightarrow> lower_ch (s ! i) \<noteq> CHR ''c'' \<Longrightarrow> lower_ch (s ! i) \<noteq> CHR ''s'' \<Longrightarrow>
     run TXN_RE s (i, c) = []"
  "i < length s \<Longrightarrow> lower_ch (s ! i) \<noteq> CHR ''c'' \<Longrightarrow> run (the FUNC_RE) s (i, c) = []"
  "i < length s \<Longrightarrow> lower_ch (s ! i) \<noteq> CHR ''s'' \<Longrightarrow> run ARCH47_RE s (i, c) = []"
  "i < length s \<Longrightarrow> lower_ch (s ! i) \<noteq> CHR ''s'' \<Longrightarrow> run ARCH30_RE s (i, c) = []"
  "i < length s \<Longrightarrow> lower_ch (s ! i) \<noteq> CHR ''s'' \<Longrightarrow> run READ_RE s (i, c) = []"
  by (simp_all add: run_unfold lits_def lower_ch_Char)

lemma scan_skip:
  "i < length s \<Longrightarrow> lower_ch (s ! i) \<noteq> CHR ''c'' \<Longrightarrow> lower_ch (s ! i) \<noteq> CHR ''s'' \<Longrightarrow>
     finditer TXN_RE s i = finditer TXN_RE s (Suc i)"
  "i < length s \<Longrightarrow> lower_ch (s ! i) \<noteq> CHR ''c'' \<Longrightarrow>
     finditer (the FUNC_RE) s i = finditer (the FUNC_RE) s (Suc i)"
  "i < length s \<Longrightarrow> lower_ch (s ! i) \<noteq> CHR ''s'' \<Longrightarrow>
     finditer ARCH47_RE s i = finditer ARCH47_RE s (Suc i)"
  "i < length s \<Longrightarrow> lower_ch (s ! i) \<noteq> CHR ''s'' \<Longrightarrow>
     finditer ARCH30_RE s i = finditer ARCH30_RE s (Suc i)"
  "i < length s \<Longrightarrow> lower_ch (s ! i) \<noteq> CHR ''s'' \<Longrightarrow>
     finditer READ_RE s i = finditer READ_RE s (Suc i)"
  by (simp_all add: finditer_skip first_char)

lemma scan_try:
  "length s \<le> i \<or> lower_ch (s ! i) = CHR ''c'' \<or> lower_ch (s ! i) = CHR ''s'' \<Longrightarrow>
     finditer TXN_RE s i =
     (if length s < i then []
      else case run TXN_RE s (i, Map.empty) of
             [] \<Rightarrow> finditer TXN_RE s (Suc i)
           | (e, c) # _ \<Rightarrow>
               \<lparr>m_string = s, m_start = i, m_end = e, m_groups = c\<rparr>
                 # finditer TXN_RE s (if i < e then e else Suc i))"
  "length s \<le> i \<or> lower_ch (s ! i) = CHR ''c'' \<Longrightarrow>
     finditer (the FUNC_RE) s i =
     (if length s < i then []
      else case run (the FUNC_RE) s (i, Map.empty) of
             [] \<Rightarrow> finditer (the FUNC_RE) s (Suc i)
           | (e, c) # _ \<Rightarrow>
               \<lparr>m_string = s, m_start = i, m_end = e, m_groups = c\<rparr>
                 # finditer (the FUNC_RE) s (if i < e then e else Suc i))"
  "length s \<le> i \<or> lower_ch (s ! i) = CHR ''s'' \<Longrightarrow>
     finditer ARCH47_RE s i =
     (if length s < i then []
      else case run ARCH47_RE s (i, Map.empty) of
             [] \<Rightarrow> finditer ARCH47_RE s (Suc i)
           | (e, c) # _ \<Rightarrow>
               \<lparr>m_string = s, m_start = i, m_end = e, m_groups = c\<rparr>
                 # finditer ARCH47_RE s (if i < e then e else Suc i))"
  "length s \<le> i \<or> lower_ch (s ! i) = CHR ''s'' \<Longrightarrow>
     finditer ARCH30_RE s i =
     (if length s < i then []
      else case run ARCH30_RE s (i, Map.empty) of
             [] \<Rightarrow> finditer ARCH30_RE s (Suc i)
           | (e, c) # _ \<Rightarrow>
               \<lparr>m_string = s, m_start = i, m_end = e, m_groups = c\<rparr>
                 # finditer ARCH30_RE s (if i < e then e else Suc i))"
  "length s \<le> i \<or> lower_ch (s ! i) = CHR ''s'' \<Longrightarrow>
     finditer READ_RE s i =
     (if length s < i then []
      else case run READ_RE s (i, Map.empty) of
             [] \<Rightarrow> finditer READ_RE s (Suc i)
           | (e, c) # _ \<Rightarrow>
               \<lparr>m_string = s, m_start = i, m_end = e, m_groups = c\<rparr>
                 # finditer READ_RE s (if i < e then e else Suc i))"
  by (subst finditer.simps, rule refl)+

lemma find_unfold:
  "find_mm_purchasing_issues (Some t) =
     (if t = [] then Inr []
      else
        (case for_each txn_body (finditer TXN_RE t 0) [] of Inl e \<Rightarrow> Inl e
         | Inr issues1 \<Rightarrow>
        (case for_each func_body (finditer (the FUNC_RE) t 0) issues1 of Inl e \<Rightarrow> Inl e
         | Inr issues2 \<Rightarrow>
        (case for_each arch47_body (finditer ARCH47_RE t 0) issues2 of Inl e \<Rightarrow> Inl e
         | Inr issues3 \<Rightarrow>
        (case for_each arch30_body (finditer ARCH30_RE t 0) issues3 of Inl e \<Rightarrow> Inl e
         | Inr issues4 \<Rightarrow>
        for_each read_body (finditer READ_RE t 0) issues4)))))"
proof -
  obtain re where re: "FUNC_RE = Some re" using FUNC_RE_the by blast
  have "the FUNC_RE = re" by (simp add: re)
  then show ?thesis by (simp add: find_mm_purchasing_issues_def re cong: sum.case_cong)
qed

text \<open>The class \<open>[A-Z]\<close> under \<open>re.IGNORECASE\<close>, without the enumeration of the range.\<close>

lemma lower_char_of_AZ: "65 \<le> (k::nat) \<Longrightarrow> k \<le> 90 \<Longrightarrow> lower_ch (char_of k) = char_of (k + 32)"
  by (simp add: lower_ch_def)

lemma item_ok_AZ:
  "item_ok (Rng (CHR ''A'') (CHR ''Z'')) ch \<longleftrightarrow>
     97 \<le> (of_char (lower_ch ch) :: nat) \<and> (of_char (lower_ch ch) :: nat) \<le> 122"
proof -
  let ?n = "of_char (lower_ch ch) :: nat"
  have "item_ok (Rng (CHR ''A'') (CHR ''Z'')) ch \<longleftrightarrow>
        (\<exists>k::nat. 65 \<le> k \<and> k \<le> 90 \<and> lower_ch ch = lower_ch (char_of k))"
  proof -
    have "(k < 91) = (k \<le> 90)" for k :: nat by arith
    then show ?thesis
      by (simp add: list_ex_iff Bex_def conj_commute conj_left_commute del: upt_rec_numeral)
  qed
  also have "\<dots> \<longleftrightarrow> (\<exists>k::nat. 65 \<le> k \<and> k \<le> 90 \<and> lower_ch ch = char_of (k + 32))"
    using lower_char_of_AZ by (metis (no_types, lifting))
  also have "\<dots> \<longleftrightarrow> (\<exists>k::nat. 65 \<le> k \<and> k \<le> 90 \<and> ?n = k + 32)"
  proof -
    have "lower_ch ch = char_of (k + 32) \<longleftrightarrow> ?n = k + 32" if "k \<le> 90" for k :: nat
    proof
      assume "lower_ch ch = char_of (k + 32)"
      then have "?n = (k + 32) mod 256" by simp
      with that show "?n = k + 32" by simp
    next
      assume "?n = k + 32"
      then have "char_of ?n = (char_of (k + 32) :: char)" by simp
      then show "lower_ch ch = char_of (k + 32)" by simp
    qed
    then show ?thesis by blast
  qed
  also have "\<dots> \<longleftrightarrow> 97 \<le> ?n \<and> ?n \<le> 122"
    by presburger
  finally show ?thesis .
qed

declare item_ok.simps(2) [simp del]

lemmas ev = find_unfold scan_skip scan_try run_unfold NAMES_eval
  TXN_MAP_def BAPI_MAP_def IDOC_MAP_def ARCHIVE_REPORT_MAP_def
  ARCHIVE_30_PREFIXES_def READ_REPORTS_def lits_def quote_def to_dot_def sq_def dq_def
  item_ok_AZ lower_ch_Char upper_ch_Char isspace_def isword_def upper_def char_of_eq_iff boundary_def reps_def
  group_def span_def slice_def group_upper_def getitem_def first_def mk_suggested_statement_def add_hit_def
  txn_body_def func_body_def arch47_body_def arch30_body_def read_body_def startswith_def Let_def
  sublist_code(3) prefix_code(2)

section \<open>Records and the matches they come from\<close>

lemma finditer_bounds:
  "m \<in> set (finditer re s k) \<Longrightarrow> m_start m \<le> m_end m \<and> m_end m \<le> length s"
  using finditer_mem [of m re s k] run_bounds [of "m_end m" "m_groups m" re s "m_start m" Map.empty]
  by blast

lemma emits_fields:
  assumes "emits body cat m" and "body m [] = Inr [h]"
  shows "table h = ''None''" and "used_fields h = []" and "suggested_fields h = None"
    and "target_type h = cat"
    and "start_char_in_unit h = int (m_start m)" and "end_char_in_unit h = int (m_end m)"
    and "group_upper m ''name'' = Inr (target_name h)"
proof -
  from assms(2) have "h \<in> set (projr (body m []))" by simp
  with assms(1) have
    "table h = ''None'' \<and> used_fields h = [] \<and> suggested_fields h = None \<and>
     target_type h = cat \<and>
     start_char_in_unit h = int (m_start m) \<and> end_char_in_unit h = int (m_end m) \<and>
     group_upper m ''name'' = Inr (target_name h)"
    unfolding emits_def by blast
  then show "table h = ''None''" and "used_fields h = []" and "suggested_fields h = None"
    and "target_type h = cat"
    and "start_char_in_unit h = int (m_start m)" and "end_char_in_unit h = int (m_end m)"
    and "group_upper m ''name'' = Inr (target_name h)"
    by simp_all
qed

text \<open>Every record of a scan, with the pattern and the match it comes from.\<close>

lemma hit_match:
  assumes "find_mm_purchasing_issues (Some t) = Inr hs" and "h \<in> set hs"
  shows "\<exists>re m body cat.
           (re = TXN_RE \<or> FUNC_RE = Some re \<or> re = ARCH47_RE \<or> re = ARCH30_RE \<or> re = READ_RE) \<and>
           m \<in> set (finditer re t 0) \<and> emits body cat m \<and> body m [] = Inr [h]"
  using hit_origin [OF assms] by (elim disjE bexE exE conjE) blast+

lemma scan_total: "\<exists>hs. find_mm_purchasing_issues txt = Inr hs"
proof (cases "txt")
  case None
  then show ?thesis by (simp add: find_mm_purchasing_issues_def)
next
  case (Some t)
  then show ?thesis using scan_passes [of t] by blast
qed

lemma scan_read_report:
  "find_mm_purchasing_issues (Some ''SUBMIT RM06ER30.'') =
     Inr [\<lparr>table = ''None'', target_type = ''Report'', target_name = ''RM06ER30'',
           start_char_in_unit = 0, end_char_in_unit = 16, used_fields = [],
           ambiguous = True,
           suggested_statement = ''SUBMIT <corresponding RM06**70 report>.'',
           suggested_fields = None,
           note' = Some ''Move to RM06**70 reports (EhP4+).''\<rparr>,
          \<lparr>table = ''None'', target_type = ''Report'', target_name = ''RM06ER30'',
           start_char_in_unit = 0, end_char_in_unit = 16, used_fields = [],
           ambiguous = True,
           suggested_statement =
             ''Use transaction SARI for displaying archived MM Purchasing documents.'',
           suggested_fields = None,
           note' = Some ''Read programs still usable; consider using Archive Information System (SARI).''\<rparr>]"
  by (simp add: ev)

lemma pass_member:
  assumes "\<forall>m\<in>set ms. emits body cat m" and "for_each body ms [] = Inr p"
    and "m \<in> set ms" and "body m [] = Inr [h]"
  shows "h \<in> set p"
proof -
  from for_each_emits [OF assms(1), of "[]"] assms(2)
  have "p = concat (map (\<lambda>m. projr (body m [])) ms)" by simp
  with assms(3,4) show ?thesis by force
qed

lemma pass_category:
  assumes "\<forall>m\<in>set ms. emits body cat m" and "for_each body ms [] = Inr p"
  shows "list_all (\<lambda>h. target_type h = cat) p"
  unfolding list_all_iff
proof
  fix h assume "h \<in> set p"
  from pass_hit [OF assms this] obtain m where "body m [] = Inr [h]" "emits body cat m" by blast
  from emits_fields(4) [OF this(2) this(1)] show "target_type h = cat" .
qed

lemma scan_two_statements:
  "find_mm_purchasing_issues (Some ''SUBMIT RM06EV47. SUBMIT ME21.'') =
     Inr [\<lparr>table = ''None'', target_type = ''Transaction'', target_name = ''ME21'',
           start_char_in_unit = 17, end_char_in_unit = 29, used_fields = [],
           ambiguous = False, suggested_statement = ''SUBMIT ME21N.'',
           suggested_fields = None, note' = None\<rparr>,
          \<lparr>table = ''None'', target_type = ''Report'', target_name = ''RM06EV47'',
           start_char_in_unit = 0, end_char_in_unit = 16, used_fields = [],
           ambiguous = False, suggested_statement = ''SUBMIT RM06EV70.'',
           suggested_fields = None,
           note' = Some ''Archiving Object MM_EKKO: use *70 reports (EhP4+).''\<rparr>]"
  by (simp add: ev)

lemma scan_lower_case_report:
  "find_mm_purchasing_issues (Some ''x = 1. submit rm06ev47 and return.'') =
     Inr [\<lparr>table = ''None'', target_type = ''Report'', target_name = ''RM06EV47'',
           start_char_in_unit = 7, end_char_in_unit = 34, used_fields = [],
           ambiguous = False, suggested_statement = ''SUBMIT RM06EV70.'',
           suggested_fields = None,
           note' = Some ''Archiving Object MM_EKKO: use *70 reports (EhP4+).''\<rparr>]"
  by (simp add: ev)

section \<open>The matched identifiers\<close>

lemma run_group_lang:
  "(e, c') \<in> set (run r s (i, c)) \<Longrightarrow> i \<le> length s \<Longrightarrow>
   c' g = c g \<or> (\<exists>a b. c' g = Some (a, b) \<and> slice s a b \<in> glang g r)"
proof (induction r arbitrary: i c e c')
  case (Seq r1 r2)
  from Seq.prems(1) obtain e1 c1 where
    a: "(e1, c1) \<in> set (run r1 s (i, c))" and b: "(e, c') \<in> set (run r2 s (e1, c1))"
    unfolding in_run_Seq by blast
  from run_bounds [OF a Seq.prems(2)] have 1: "e1 \<le> length s" by simp
  from Seq.IH(1) [OF a Seq.prems(2)] Seq.IH(2) [OF b 1] show ?case by auto
next
  case (Grp g' r)
  from Grp.prems(1) obtain c0 where
    a: "(e, c0) \<in> set (run r s (i, c))" and c': "c' = c0(g' \<mapsto> (i, e))" by auto
  show ?case
  proof (cases "g = g'")
    case True
    then show ?thesis using run_lang [OF a Grp.prems(2)] c' by simp
  next
    case False
    then show ?thesis using Grp.IH [OF a Grp.prems(2)] c' by simp
  qed
next
  case (Alt r1 r2)
  from Alt.prems(1) have "(e, c') \<in> set (run r1 s (i, c)) \<or> (e, c') \<in> set (run r2 s (i, c))"
    by simp
  then show ?case
  proof
    assume "(e, c') \<in> set (run r1 s (i, c))"
    from Alt.IH(1) [OF this Alt.prems(2)] show ?thesis by auto
  next
    assume "(e, c') \<in> set (run r2 s (i, c))"
    from Alt.IH(2) [OF this Alt.prems(2)] show ?thesis by auto
  qed
next
  case (Opt r)
  from Opt.prems(1) have "(e, c') \<in> set (run r s (i, c)) \<or> (e, c') = (i, c)"
    by auto
  then show ?case
  proof
    assume "(e, c') \<in> set (run r s (i, c))"
    from Opt.IH [OF this Opt.prems(2)] show ?thesis by auto
  next
    assume "(e, c') = (i, c)"
    then show ?thesis by simp
  qed
qed (auto split: if_splits)

lemma of_char_lower_ch:
  "(of_char (lower_ch ch) :: nat) =
     (let n = of_char ch in
      if (65 \<le> n \<and> n \<le> 90) \<or> (192 \<le> n \<and> n \<le> 222 \<and> n \<noteq> 215) then n + 32 else n)"
proof -
  have "(of_char ch :: nat) < 256" by simp
  then show ?thesis by (auto simp: lower_ch_def Let_def)
qed

lemma of_char_upper_ch:
  "(of_char (upper_ch ch) :: nat) =
     (let n = of_char ch in
      if (97 \<le> n \<and> n \<le> 122) \<or> (224 \<le> n \<and> n \<le> 254 \<and> n \<noteq> 247) then n - 32 else n)"
proof -
  have "(of_char ch :: nat) < 256" by simp
  then show ?thesis by (auto simp: upper_ch_def Let_def)
qed

lemma lower_eq_ident:
  assumes "lower_ch ch = lower_ch p" and "is_ident p"
  shows "is_ident ch"
proof -
  from assms(1) have "(of_char (lower_ch ch) :: nat) = of_char (lower_ch p)" by simp
  with assms(2) show ?thesis
    unfolding of_char_lower_ch is_ident_def Let_def by (auto split: if_splits)
qed

lemma az_ident: "item_ok (Rng (CHR ''A'') (CHR ''Z'')) ch \<Longrightarrow> is_ident ch"
  unfolding item_ok_AZ of_char_lower_ch is_ident_def Let_def by (auto split: if_splits)

lemma upper_ident:
  "is_ident ch \<Longrightarrow>
   (let n = (of_char (upper_ch ch) :: nat) in (48 \<le> n \<and> n \<le> 57) \<or> (65 \<le> n \<and> n \<le> 90) \<or> n = 95)"
  unfolding of_char_upper_ch is_ident_def Let_def by (auto split: if_splits)

lemma lang_lits:
  "w \<in> lang (lits p) \<Longrightarrow> list_all is_ident p \<Longrightarrow> list_all is_ident w"
proof (induction p arbitrary: w rule: induct_list012)
  case 1
  then show ?case by (simp add: lits_def)
next
  case (2 x)
  then show ?case by (auto simp: lits_def dest: lower_eq_ident)
next
  case (3 x y zs)
  from "3.prems"(1) obtain ch v where w: "w = ch # v" and ch: "lower_ch ch = lower_ch x"
    and v: "v \<in> lang (lits (y # zs))"
    by (auto simp: lits_def)
  from "3.IH"(2) [OF v] "3.prems"(2) have "list_all is_ident v" by simp
  moreover from lower_eq_ident [OF ch] "3.prems"(2) have "is_ident ch" by simp
  ultimately show ?case using w by simp
qed

lemma lang_alts_lits:
  "w \<in> lang (alts (map lits ps)) \<Longrightarrow> \<forall>p\<in>set ps. list_all is_ident p \<Longrightarrow> list_all is_ident w"
proof (induction ps rule: induct_list012)
  case 1
  then show ?case by simp
next
  case (2 x)
  then show ?case using lang_lits by simp
next
  case (3 x y zs)
  from "3.prems"(1) have "w \<in> lang (lits x) \<or> w \<in> lang (alts (map lits (y # zs)))" by simp
  then show ?case using lang_lits [of w x] "3.IH"(2) "3.prems"(2) by auto
qed

lemma glang_lits: "glang g (lits p) = {}"
  by (induction p rule: induct_list012) (simp_all add: lits_def)

lemma glang_name:
  "glang ''name'' TXN_RE = lang (alts (map lits TXN_NAMES))"
  "FUNC_RE = Some re \<Longrightarrow> glang ''name'' re = lang (alts (map lits FUNC_NAMES))"
  "glang ''name'' ARCH47_RE = lang (alts (map lits ARCH47_NAMES))"
  "glang ''name'' ARCH30_RE =
     lang (seqs [alts (map lits ARCHIVE_30_PREFIXES),
                 Star (Cls False [Rng (CHR ''A'') (CHR ''Z'')]), lits ''30''])"
  "glang ''name'' READ_RE = lang (alts (map lits READ_REPORTS))"
  by (auto simp: TXN_RE_def FUNC_RE_def ARCH47_RE_def ARCH30_RE_def READ_RE_def
      FUNC_NAMES_nonempty glang_lits quote_def to_dot_def)

lemma names_ident:
  "\<forall>p\<in>set TXN_NAMES. list_all is_ident p"
  "\<forall>p\<in>set FUNC_NAMES. list_all is_ident p"
  "\<forall>p\<in>set ARCH47_NAMES. list_all is_ident p"
  "\<forall>p\<in>set ARCHIVE_30_PREFIXES. list_all is_ident p"
  "\<forall>p\<in>set READ_REPORTS. list_all is_ident p"
  "list_all is_ident ''30''"
  by (simp_all add: NAMES_eval ARCHIVE_30_PREFIXES_def READ_REPORTS_def is_ident_def)

text \<open>The text of the group \<open>name\<close> of every match consists of ASCII letters, digits and
  underscores.\<close>

lemma name_group_ident:
  assumes "re = TXN_RE \<or> FUNC_RE = Some re \<or> re = ARCH47_RE \<or> re = ARCH30_RE \<or> re = READ_RE"
    and "m \<in> set (finditer re t k)" and "m_groups m ''name'' = Some (a, b)"
  shows "list_all is_ident (slice t a b)"
proof -
  from finditer_mem [OF assms(2)] have
    le: "m_start m \<le> length t" and
    run: "(m_end m, m_groups m) \<in> set (run re t (m_start m, Map.empty))" by blast+
  from run_group_lang [OF run le, of "''name''"] assms(3)
  have in_g: "slice t a b \<in> glang ''name'' re" by auto
  from assms(1) show ?thesis
  proof (elim disjE)
    assume "re = TXN_RE"
    with in_g show ?thesis using lang_alts_lits [OF _ names_ident(1)] by (simp add: glang_name)
  next
    assume "FUNC_RE = Some re"
    with in_g show ?thesis using lang_alts_lits [OF _ names_ident(2)] by (simp add: glang_name)
  next
    assume "re = ARCH47_RE"
    with in_g show ?thesis using lang_alts_lits [OF _ names_ident(3)] by (simp add: glang_name)
  next
    assume "re = ARCH30_RE"
    with in_g obtain u v w where
      s: "slice t a b = u @ v @ w" and
      u: "u \<in> lang (alts (map lits ARCHIVE_30_PREFIXES))" and
      v: "\<forall>ch\<in>set v. item_ok (Rng (CHR ''A'') (CHR ''Z'')) ch" and
      w: "w \<in> lang (lits ''30'')"
      by (auto simp: glang_name)
    from lang_alts_lits [OF u names_ident(4)] have "list_all is_ident u" .
    moreover from v have "list_all is_ident v" by (auto simp: list_all_iff dest: az_ident)
    moreover from lang_lits [OF w names_ident(6)] have "list_all is_ident w" .
    ultimately show ?thesis using s by simp
  next
    assume "re = READ_RE"
    with in_g show ?thesis using lang_alts_lits [OF _ names_ident(5)] by (simp add: glang_name)
  qed
qed

text \<open>So \<open>target_name\<close> consists of ASCII capital letters, digits and underscores: the only
  characters that \<open>upper\<close> meets are ASCII, where it is Python's \<open>str.upper\<close>.\<close>

lemma target_name_ascii:
  assumes "find_mm_purchasing_issues (Some t) = Inr hs" and "h \<in> set hs"
  shows "list_all (\<lambda>ch. let n = (of_char ch :: nat) in
            (48 \<le> n \<and> n \<le> 57) \<or> (65 \<le> n \<and> n \<le> 90) \<or> n = 95) (target_name h)"
proof -
  from hit_match [OF assms] obtain re m body cat where
    re: "re = TXN_RE \<or> FUNC_RE = Some re \<or> re = ARCH47_RE \<or> re = ARCH30_RE \<or> re = READ_RE" and
    m: "m \<in> set (finditer re t 0)" and e: "emits body cat m" and b: "body m [] = Inr [h]"
    by blast
  from finditer_mem [OF m] have str: "m_string m = t" by simp
  from emits_fields(7) [OF e b] obtain a b where
    ab: "m_groups m ''name'' = Some (a, b)" and n: "target_name h = upper (slice t a b)"
    using str by (auto simp: group_upper_def group_def split: option.splits)
  from name_group_ident [OF re m ab] have "list_all is_ident (slice t a b)" .
  then show ?thesis unfolding n upper_def list_all_iff using upper_ident by auto
qed

section \<open>Records and loop bodies\<close>

text \<open>What a record says about the loop body that appended it.\<close>

lemma txn_body_hit:
  assumes "txn_body m [] = Inr [h]"
  shows "\<exists>st repls. group m ''stmt'' = Some st \<and>
           map_of TXN_MAP (target_name h) = Some repls \<and> repls \<noteq> [] \<and>
           mk_suggested_statement ''txn'' (target_name h) repls st = Inr (suggested_statement h) \<and>
           ambiguous h = (1 < length repls)"
  using assms
  by (auto simp: txn_body_def add_hit_def Let_def split: sum.splits option.splits if_splits)

lemma func_body_hit:
  assumes "func_body m [] = Inr [h]"
  shows "\<exists>entry new.
           getitem entry ''new'' = Inr new \<and>
           suggested_statement h = ''CALL FUNCTION '' @ [sq] @ new @ [sq] @ ''.'' \<and>
           (map_of BAPI_MAP (target_name h) = Some entry \<and> \<not> ambiguous h \<or>
            map_of BAPI_MAP (target_name h) = None \<and> map_of IDOC_MAP (target_name h) = Some entry \<and>
              ambiguous h = (new = target_name h))"
  using assms
  by (auto simp: func_body_def add_hit_def Let_def mk_one split: sum.splits option.splits if_splits)

lemma read_body_hit:
  assumes "read_body m [] = Inr [h]"
  shows "ambiguous h \<and>
         suggested_statement h =
           ''Use transaction SARI for displaying archived MM Purchasing documents.''"
  using assms
  by (auto simp: read_body_def add_hit_def Let_def split: sum.splits)

lemma mk_txn_two:
  "\<exists>x y. mk_suggested_statement ''txn'' old [a] st = Inr x \<and>
         mk_suggested_statement ''txn'' old [b] st = Inr y \<and>
         mk_suggested_statement ''txn'' old [a, b] st = Inr (join '' or '' [x, y])"
  by (cases "startswith (upper st) ''SUBMIT''")
     (simp_all add: mk_suggested_statement_def first_def)

lemma func_body_PORDCH:
  assumes "group_upper m ''name'' = Inr ''IDOC_INPUT_PORDCH''"
  shows "\<exists>h. func_body m [] = Inr [h] \<and> target_name h = ''IDOC_INPUT_PORDCH'' \<and> ambiguous h"
  using assms
  by (simp add: func_body_def BAPI_MAP_def IDOC_MAP_def getitem_def mk_one add_hit_def)

section \<open>Scans of minimal invocations\<close>

text \<open>Minimal invocations of the transaction codes with one replacement, one lemma for
  each code: both keyword forms, the code bare, in single and in double quotes.\<close>

lemma minimal_ME21:
  "\<forall>kw\<in>set [''CALL TRANSACTION'', ''SUBMIT'']. \<forall>q\<in>set [[], [sq], [dq]].
     \<exists>h. find_mm_purchasing_issues (Some (kw @ '' '' @ q @ ''ME21'' @ q @ ''.'')) = Inr [h] \<and>
       target_name h = ''ME21'' \<and> \<not> ambiguous h \<and> sublist ''ME21N'' (suggested_statement h)"
  by (simp add: ev)

lemma minimal_ME22:
  "\<forall>kw\<in>set [''CALL TRANSACTION'', ''SUBMIT'']. \<forall>q\<in>set [[], [sq], [dq]].
     \<exists>h. find_mm_purchasing_issues (Some (kw @ '' '' @ q @ ''ME22'' @ q @ ''.'')) = Inr [h] \<and>
       target_name h = ''ME22'' \<and> \<not> ambiguous h \<and> sublist ''ME22N'' (suggested_statement h)"
  by (simp add: ev)

lemma minimal_ME23:
  "\<forall>kw\<in>set [''CALL TRANSACTION'', ''SUBMIT'']. \<forall>q\<in>set [[], [sq], [dq]].
     \<exists>h. find_mm_purchasing_issues (Some (kw @ '' '' @ q @ ''ME23'' @ q @ ''.'')) = Inr [h] \<and>
       target_name h = ''ME23'' \<and> \<not> ambiguous h \<and> sublist ''ME23N'' (suggested_statement h)"
  by (simp add: ev)

lemma minimal_ME25:
  "\<forall>kw\<in>set [''CALL TRANSACTION'', ''SUBMIT'']. \<forall>q\<in>set [[], [sq], [dq]].
     \<exists>h. find_mm_purchasing_issues (Some (kw @ '' '' @ q @ ''ME25'' @ q @ ''.'')) = Inr [h] \<and>
       target_name h = ''ME25'' \<and> \<not> ambiguous h \<and> sublist ''ME21N'' (suggested_statement h)"
  by (simp add: ev)

lemma minimal_ME27:
  "\<forall>kw\<in>set [''CALL TRANSACTION'', ''SUBMIT'']. \<forall>q\<in>set [[], [sq], [dq]].
     \<exists>h. find_mm_purchasing_issues (Some (kw @ '' '' @ q @ ''ME27'' @ q @ ''.'')) = Inr [h] \<and>
       target_name h = ''ME27'' \<and> \<not> ambiguous h \<and> sublist ''ME21N'' (suggested_statement h)"
  by (simp add: ev)

lemma minimal_ME28:
  "\<forall>kw\<in>set [''CALL TRANSACTION'', ''SUBMIT'']. \<forall>q\<in>set [[], [sq], [dq]].
     \<exists>h. find_mm_purchasing_issues (Some (kw @ '' '' @ q @ ''ME28'' @ q @ ''.'')) = Inr [h] \<and>
       target_name h = ''ME28'' \<and> \<not> ambiguous h \<and> sublist ''ME29N'' (suggested_statement h)"
  by (simp add: ev)

lemma minimal_ME51:
  "\<forall>kw\<in>set [''CALL TRANSACTION'', ''SUBMIT'']. \<forall>q\<in>set [[], [sq], [dq]].
     \<exists>h. find_mm_purchasing_issues (Some (kw @ '' '' @ q @ ''ME51'' @ q @ ''.'')) = Inr [h] \<and>
       target_name h = ''ME51'' \<and> \<not> ambiguous h \<and> sublist ''ME51N'' (suggested_statement h)"
  by (simp add: ev)

lemma minimal_ME52:
  "\<forall>kw\<in>set [''CALL TRANSACTION'', ''SUBMIT'']. \<forall>q\<in>set [[], [sq], [dq]].
     \<exists>h. find_mm_purchasing_issues (Some (kw @ '' '' @ q @ ''ME52'' @ q @ ''.'')) = Inr [h] \<and>
       target_name h = ''ME52'' \<and> \<not> ambiguous h \<and> sublist ''ME52N'' (suggested_statement h)"
  by (simp add: ev)

lemma minimal_ME53:
  "\<forall>kw\<in>set [''CALL TRANSACTION'', ''SUBMIT'']. \<forall>q\<in>set [[], [sq], [dq]].
     \<exists>h. find_mm_purchasing_issues (Some (kw @ '' '' @ q @ ''ME53'' @ q @ ''.'')) = Inr [h] \<and>
       target_name h = ''ME53'' \<and> \<not> ambiguous h \<and> sublist ''ME53N'' (suggested_statement h)"
  by (simp add: ev)

lemma minimal_ME54:
  "\<forall>kw\<in>set [''CALL TRANSACTION'', ''SUBMIT'']. \<forall>q\<in>set [[], [sq], [dq]].
     \<exists>h. find_mm_purchasing_issues (Some (kw @ '' '' @ q @ ''ME54'' @ q @ ''.'')) = Inr [h] \<and>
       target_name h = ''ME54'' \<and> \<not> ambiguous h \<and> sublist ''ME54N'' (suggested_statement h)"
  by (simp add: ev)

lemma minimal_ME59:
  "\<forall>kw\<in>set [''CALL TRANSACTION'', ''SUBMIT'']. \<forall>q\<in>set [[], [sq], [dq]].
     \<exists>h. find_mm_purchasing_issues (Some (kw @ '' '' @ q @ ''ME59'' @ q @ ''.'')) = Inr [h] \<and>
       target_name h = ''ME59'' \<and> \<not> ambiguous h \<and> sublist ''ME59N'' (suggested_statement h)"
  by (simp add: ev)

section \<open>The claims\<close>

text \<open>
  C7. Scanning the empty text and scanning an absent text both return the empty list of
  suggestion records, and neither raises an error; the same holds for a unit whose code is
  absent or empty, which the batch runner scans as the empty text.
\<close>

theorem empty_or_absent_text:
  "find_mm_purchasing_issues None = Inr [] \<and>
   find_mm_purchasing_issues (Some []) = Inr [] \<and>
   remediate_mm_purchasing [u\<lparr>code := None\<rparr>] = Inr [(u\<lparr>code := None\<rparr>, [])] \<and>
   remediate_mm_purchasing [u\<lparr>code := Some []\<rparr>] = Inr [(u\<lparr>code := Some []\<rparr>, [])]"
  by (simp add: find_mm_purchasing_issues_def)

text \<open>
  C1. The claim: the transaction matcher reports a hit only when the identifier after the
  invocation keyword is exactly a deprecated code, so that \<open>CALL TRANSACTION ME21N.\<close> yields
  no Transaction record for ME21. The code reports one: \<open>TXN_RE\<close> has no \<open>\b\<close> after the
  name (the three report patterns have), so the scan of that text returns a Transaction
  record for ME21 over the offsets 0 to 21, the text \<open>CALL TRANSACTION ME21\<close>.
\<close>

theorem txn_prefix_is_reported:
  "find_mm_purchasing_issues (Some ''CALL TRANSACTION ME21N.'') =
     Inr [\<lparr>table = ''None'', target_type = ''Transaction'', target_name = ''ME21'',
           start_char_in_unit = 0, end_char_in_unit = 21, used_fields = [],
           ambiguous = False,
           suggested_statement = ''CALL TRANSACTION '' @ [sq] @ ''ME21N'' @ [sq] @ ''.'',
           suggested_fields = None, note' = None\<rparr>] \<and>
   slice ''CALL TRANSACTION ME21N.'' 0 21 = ''CALL TRANSACTION ME21''"
  by (simp add: ev)

text \<open>
  C2. The claim: no occurrence is reported by two different matchers; a read-only report
  name such as RM06ER30 is reported by exactly one pass. The code reports it twice: the
  pattern of the generic *30 loop also describes the three read-only names, so the scan of
  \<open>SUBMIT RM06ER30.\<close> returns two records over the same offsets 0 to 16, one from the
  fourth loop (move to the *70 reports) and one from the fifth (still usable, see SARI).
\<close>

theorem read_report_is_reported_twice:
  "find_mm_purchasing_issues (Some ''SUBMIT RM06ER30.'') =
     Inr [\<lparr>table = ''None'', target_type = ''Report'', target_name = ''RM06ER30'',
           start_char_in_unit = 0, end_char_in_unit = 16, used_fields = [],
           ambiguous = True,
           suggested_statement = ''SUBMIT <corresponding RM06**70 report>.'',
           suggested_fields = None,
           note' = Some ''Move to RM06**70 reports (EhP4+).''\<rparr>,
          \<lparr>table = ''None'', target_type = ''Report'', target_name = ''RM06ER30'',
           start_char_in_unit = 0, end_char_in_unit = 16, used_fields = [],
           ambiguous = True,
           suggested_statement =
             ''Use transaction SARI for displaying archived MM Purchasing documents.'',
           suggested_fields = None,
           note' = Some ''Read programs still usable; consider using Archive Information System (SARI).''\<rparr>]"
  by (rule scan_read_report)

text \<open>
  C10. For every text (absent or present) the scan returns a list of records, and every
  record of it has span bounds that are offsets of the text,
  \<open>0 \<le> start_char_in_unit \<le> end_char_in_unit \<le> length\<close>, and the fixed reserved fields:
  \<open>table\<close> is the string \<open>None\<close>, \<open>used_fields\<close> is empty, \<open>suggested_fields\<close> is \<open>None\<close>.
\<close>

theorem span_bounds_and_reserved_fields:
  "\<exists>hs. find_mm_purchasing_issues txt = Inr hs \<and>
     (\<forall>h\<in>set hs.
        0 \<le> start_char_in_unit h \<and> start_char_in_unit h \<le> end_char_in_unit h \<and>
        end_char_in_unit h \<le> int (length (case txt of None \<Rightarrow> [] | Some t \<Rightarrow> t)) \<and>
        table h = ''None'' \<and> used_fields h = [] \<and> suggested_fields h = None)"
proof (cases "txt")
  case None
  then show ?thesis by (simp add: find_mm_purchasing_issues_def)
next
  case (Some t)
  from scan_total obtain hs where hs: "find_mm_purchasing_issues (Some t) = Inr hs" by blast
  have "0 \<le> start_char_in_unit h \<and> start_char_in_unit h \<le> end_char_in_unit h \<and>
        end_char_in_unit h \<le> int (length t) \<and>
        table h = ''None'' \<and> used_fields h = [] \<and> suggested_fields h = None"
    if "h \<in> set hs" for h
  proof -
    from hit_match [OF hs that] obtain re m body cat where
      m: "m \<in> set (finditer re t 0)" and e: "emits body cat m" and b: "body m [] = Inr [h]"
      by blast
    from finditer_bounds [OF m] emits_fields [OF e b] show ?thesis by simp
  qed
  with hs Some show ?thesis by auto
qed

theorem span_bounds_and_reserved_fields_witness:
  "\<exists>hs. find_mm_purchasing_issues (Some ''SUBMIT RM06ER30.'') = Inr hs \<and> length hs = 2 \<and>
     list_all (\<lambda>h. 0 \<le> start_char_in_unit h \<and> start_char_in_unit h \<le> end_char_in_unit h \<and>
        end_char_in_unit h \<le> 16 \<and>
        table h = ''None'' \<and> used_fields h = [] \<and> suggested_fields h = None) hs"
proof -
  from span_bounds_and_reserved_fields [of "Some ''SUBMIT RM06ER30.''"]
  obtain hs where hs: "find_mm_purchasing_issues (Some ''SUBMIT RM06ER30.'') = Inr hs"
    and all: "\<forall>h\<in>set hs.
        0 \<le> start_char_in_unit h \<and> start_char_in_unit h \<le> end_char_in_unit h \<and>
        end_char_in_unit h \<le> int (length ''SUBMIT RM06ER30.'') \<and>
        table h = ''None'' \<and> used_fields h = [] \<and> suggested_fields h = None"
    by auto
  from hs have "length hs = 2" by (auto simp: scan_read_report)
  with hs all show ?thesis by (auto simp: list_all_iff)
qed

text \<open>
  C3. Span correctness. Every record returned by a scan of a text \<open>t\<close> comes from a match
  \<open>m\<close> that one of the five patterns finds in \<open>t\<close>, and its span is the span of that whole
  match: the text of \<open>t\<close> from \<open>start_char_in_unit\<close> up to \<open>end_char_in_unit\<close>, in its
  original case, is a text that the pattern describes (keyword, identifier, trailing
  syntax). The identifier lies inside the span, so that the span text is what precedes it,
  the identifier and what follows it, and \<open>target_name\<close> is the identifier in upper case.
\<close>

theorem span_is_call_site_text:
  assumes "find_mm_purchasing_issues (Some t) = Inr hs" and "h \<in> set hs"
  shows "\<exists>re m a b.
           (re = TXN_RE \<or> FUNC_RE = Some re \<or> re = ARCH47_RE \<or> re = ARCH30_RE \<or> re = READ_RE) \<and>
           m \<in> set (finditer re t 0) \<and>
           start_char_in_unit h = int (m_start m) \<and> end_char_in_unit h = int (m_end m) \<and>
           m_end m \<le> length t \<and>
           slice t (nat (start_char_in_unit h)) (nat (end_char_in_unit h)) \<in> lang re \<and>
           m_groups m ''name'' = Some (a, b) \<and> m_start m \<le> a \<and> a \<le> b \<and> b \<le> m_end m \<and>
           slice t (m_start m) (m_end m) = slice t (m_start m) a @ slice t a b @ slice t b (m_end m) \<and>
           target_name h = upper (slice t a b)"
proof -
  from hit_match [OF assms] obtain re m body cat where
    re: "re = TXN_RE \<or> FUNC_RE = Some re \<or> re = ARCH47_RE \<or> re = ARCH30_RE \<or> re = READ_RE" and
    m: "m \<in> set (finditer re t 0)" and e: "emits body cat m" and b: "body m [] = Inr [h]"
    by blast
  from re RE_shapes obtain r where r: "re = Grp ''full'' r" and bn: "binds ''name'' r"
    by (metis option.inject)
  note fm = finditer_match [OF m [unfolded r]]
  from fm(6) [OF bn] obtain a b where ab: "m_groups m ''name'' = Some (a, b)" by auto
  from fm(7) [OF ab] have within: "m_start m \<le> a" "a \<le> b" "b \<le> m_end m" by simp_all
  have pos: "start_char_in_unit h = int (m_start m)" "end_char_in_unit h = int (m_end m)"
    using emits_fields(5,6) [OF e b] by simp_all
  have "slice t (m_start m) (m_end m) \<in> lang re" using fm(5) r by simp
  then have lang: "slice t (nat (start_char_in_unit h)) (nat (end_char_in_unit h)) \<in> lang re"
    using pos by simp
  have parts: "slice t (m_start m) (m_end m) = slice t (m_start m) a @ slice t a b @ slice t b (m_end m)"
    using slice_append [of a b "m_end m" t] slice_append [of "m_start m" a "m_end m" t] within
    by simp
  have name: "target_name h = upper (slice t a b)"
    using emits_fields(7) [OF e b] ab fm(1) by (simp add: group_upper_def group_def)
  from re m pos fm(3) lang ab within parts name show ?thesis by blast
qed

theorem span_is_call_site_text_witness:
  "\<exists>hs h. find_mm_purchasing_issues (Some ''x = 1. submit rm06ev47 and return.'') = Inr hs \<and>
     h \<in> set hs \<and> target_name h = ''RM06EV47'' \<and>
     slice ''x = 1. submit rm06ev47 and return.''
       (nat (start_char_in_unit h)) (nat (end_char_in_unit h)) = ''submit rm06ev47 and return.'' \<and>
     (\<exists>re. (re = TXN_RE \<or> FUNC_RE = Some re \<or> re = ARCH47_RE \<or> re = ARCH30_RE \<or> re = READ_RE) \<and>
        ''submit rm06ev47 and return.'' \<in> lang re)"
proof -
  let ?t = "''x = 1. submit rm06ev47 and return.''"
  let ?h = "\<lparr>table = ''None'', target_type = ''Report'', target_name = ''RM06EV47'',
           start_char_in_unit = 7, end_char_in_unit = 34, used_fields = [],
           ambiguous = False, suggested_statement = ''SUBMIT RM06EV70.'',
           suggested_fields = None,
           note' = Some ''Archiving Object MM_EKKO: use *70 reports (EhP4+).''\<rparr>"
  have scan: "find_mm_purchasing_issues (Some ?t) = Inr [?h]" by (rule scan_lower_case_report)
  have mem: "?h \<in> set [?h]" by simp
  have sl: "slice ?t (nat (start_char_in_unit ?h)) (nat (end_char_in_unit ?h)) = ''submit rm06ev47 and return.''"
    by (simp add: slice_def)
  from span_is_call_site_text [OF scan mem] obtain re where
    "re = TXN_RE \<or> FUNC_RE = Some re \<or> re = ARCH47_RE \<or> re = ARCH30_RE \<or> re = READ_RE"
    "slice ?t (nat (start_char_in_unit ?h)) (nat (end_char_in_unit ?h)) \<in> lang re"
    by blast
  with sl have "\<exists>re. (re = TXN_RE \<or> FUNC_RE = Some re \<or> re = ARCH47_RE \<or> re = ARCH30_RE \<or> re = READ_RE) \<and>
        ''submit rm06ev47 and return.'' \<in> lang re" by metis
  with scan mem sl show ?thesis
    by (intro exI [of _ "[?h]"] exI [of _ ?h]) simp
qed

text \<open>
  C8. For every text the output is the concatenation of what the five loops find, in the
  fixed order transactions, remote calls, archived reports with an exact replacement,
  archived reports with the generic redirect, advisory-only reports. Inside each part the
  records stand in the order of discovery: each starts after the one before it has ended.
  The whole list is not in document order: in the last text a transaction at offset 17
  stands before a report at offset 0.
\<close>

theorem passes_in_fixed_order:
  "(\<exists>re p1 p2 p3 p4 p5.
     FUNC_RE = Some re \<and>
     for_each txn_body (finditer TXN_RE t 0) [] = Inr p1 \<and>
     for_each func_body (finditer re t 0) [] = Inr p2 \<and>
     for_each arch47_body (finditer ARCH47_RE t 0) [] = Inr p3 \<and>
     for_each arch30_body (finditer ARCH30_RE t 0) [] = Inr p4 \<and>
     for_each read_body (finditer READ_RE t 0) [] = Inr p5 \<and>
     find_mm_purchasing_issues (Some t) = Inr (p1 @ p2 @ p3 @ p4 @ p5) \<and>
     list_all (\<lambda>h. target_type h = ''Transaction'') p1 \<and>
     list_all (\<lambda>h. target_type h = ''FunctionModule'') p2 \<and>
     list_all (\<lambda>h. target_type h = ''Report'') (p3 @ p4 @ p5) \<and>
     list_all (sorted_wrt (\<lambda>h h'. start_char_in_unit h < start_char_in_unit h' \<and>
                                   end_char_in_unit h \<le> start_char_in_unit h'))
       [p1, p2, p3, p4, p5]) \<and>
   find_mm_purchasing_issues (Some ''SUBMIT RM06EV47. SUBMIT ME21.'') =
     Inr [\<lparr>table = ''None'', target_type = ''Transaction'', target_name = ''ME21'',
           start_char_in_unit = 17, end_char_in_unit = 29, used_fields = [],
           ambiguous = False, suggested_statement = ''SUBMIT ME21N.'',
           suggested_fields = None, note' = None\<rparr>,
          \<lparr>table = ''None'', target_type = ''Report'', target_name = ''RM06EV47'',
           start_char_in_unit = 0, end_char_in_unit = 16, used_fields = [],
           ambiguous = False, suggested_statement = ''SUBMIT RM06EV70.'',
           suggested_fields = None,
           note' = Some ''Archiving Object MM_EKKO: use *70 reports (EhP4+).''\<rparr>]"
proof -
  from scan_passes [of t] obtain re p1 p2 p3 p4 p5 where
    re: "FUNC_RE = Some re" and
    p: "for_each txn_body (finditer TXN_RE t 0) [] = Inr p1"
       "for_each func_body (finditer re t 0) [] = Inr p2"
       "for_each arch47_body (finditer ARCH47_RE t 0) [] = Inr p3"
       "for_each arch30_body (finditer ARCH30_RE t 0) [] = Inr p4"
       "for_each read_body (finditer READ_RE t 0) [] = Inr p5" and
    f: "find_mm_purchasing_issues (Some t) = Inr (p1 @ p2 @ p3 @ p4 @ p5)"
    by blast
  have em:
    "\<forall>m\<in>set (finditer TXN_RE t 0). emits txn_body ''Transaction'' m"
    "\<forall>m\<in>set (finditer re t 0). emits func_body ''FunctionModule'' m"
    "\<forall>m\<in>set (finditer ARCH47_RE t 0). emits arch47_body ''Report'' m"
    "\<forall>m\<in>set (finditer ARCH30_RE t 0). emits arch30_body ''Report'' m"
    "\<forall>m\<in>set (finditer READ_RE t 0). emits read_body ''Report'' m"
    using match_emits(1,3,4,5) match_emits(2) [OF re] by blast+
  have cat: "list_all (\<lambda>h. target_type h = ''Transaction'') p1"
    "list_all (\<lambda>h. target_type h = ''FunctionModule'') p2"
    "list_all (\<lambda>h. target_type h = ''Report'') (p3 @ p4 @ p5)"
    using pass_category [OF em(1) p(1)] pass_category [OF em(2) p(2)]
      pass_category [OF em(3) p(3)] pass_category [OF em(4) p(4)] pass_category [OF em(5) p(5)]
    by simp_all
  have ord: "list_all (sorted_wrt (\<lambda>h h'. start_char_in_unit h < start_char_in_unit h' \<and>
                                   end_char_in_unit h \<le> start_char_in_unit h'))
       [p1, p2, p3, p4, p5]"
    using pass_sorted [OF em(1) p(1) finditer_sorted] pass_sorted [OF em(2) p(2) finditer_sorted]
      pass_sorted [OF em(3) p(3) finditer_sorted] pass_sorted [OF em(4) p(4) finditer_sorted]
      pass_sorted [OF em(5) p(5) finditer_sorted]
    by simp
  from re p f cat ord have
    "\<exists>re p1 p2 p3 p4 p5.
     FUNC_RE = Some re \<and>
     for_each txn_body (finditer TXN_RE t 0) [] = Inr p1 \<and>
     for_each func_body (finditer re t 0) [] = Inr p2 \<and>
     for_each arch47_body (finditer ARCH47_RE t 0) [] = Inr p3 \<and>
     for_each arch30_body (finditer ARCH30_RE t 0) [] = Inr p4 \<and>
     for_each read_body (finditer READ_RE t 0) [] = Inr p5 \<and>
     find_mm_purchasing_issues (Some t) = Inr (p1 @ p2 @ p3 @ p4 @ p5) \<and>
     list_all (\<lambda>h. target_type h = ''Transaction'') p1 \<and>
     list_all (\<lambda>h. target_type h = ''FunctionModule'') p2 \<and>
     list_all (\<lambda>h. target_type h = ''Report'') (p3 @ p4 @ p5) \<and>
     list_all (sorted_wrt (\<lambda>h h'. start_char_in_unit h < start_char_in_unit h' \<and>
                                   end_char_in_unit h \<le> start_char_in_unit h'))
       [p1, p2, p3, p4, p5]"
    by blast
  with scan_two_statements show ?thesis by (rule conjI [rotated])
qed

text \<open>
  C4. For every deprecated transaction code with exactly one replacement, the scan of a
  minimal invocation (either keyword form, a blank, the code bare or in quotes, the full
  stop) returns exactly one record; the record names the code, is not ambiguous, and its
  suggested statement contains the replacement code.
\<close>

theorem single_replacement_invocation:
  "\<forall>(old, news)\<in>set TXN_MAP. length news = 1 \<longrightarrow>
     (\<forall>kw\<in>set [''CALL TRANSACTION'', ''SUBMIT'']. \<forall>q\<in>set [[], [sq], [dq]].
        \<exists>h. find_mm_purchasing_issues (Some (kw @ '' '' @ q @ old @ q @ ''.'')) = Inr [h] \<and>
          target_name h = old \<and> \<not> ambiguous h \<and>
          (\<forall>new\<in>set news. sublist new (suggested_statement h)))"
  using minimal_ME21 minimal_ME22 minimal_ME23 minimal_ME25 minimal_ME27 minimal_ME28 minimal_ME51 minimal_ME52 minimal_ME53 minimal_ME54 minimal_ME59
  by (simp add: TXN_MAP_def)

theorem single_replacement_invocation_witness:
  "(''ME28'', [''ME29N'']) \<in> set TXN_MAP \<and> length [''ME29N''] = 1 \<and>
   (\<exists>h. find_mm_purchasing_issues (Some (''CALL TRANSACTION'' @ '' '' @ [sq] @ ''ME28'' @ [sq] @ ''.'')) = Inr [h] \<and>
      target_name h = ''ME28'' \<and> \<not> ambiguous h \<and> sublist ''ME29N'' (suggested_statement h))"
proof -
  have a: "(''ME28'', [''ME29N'']) \<in> set TXN_MAP" by (simp add: TXN_MAP_def)
  from single_replacement_invocation a have
    "length [''ME29N''] = 1 \<longrightarrow>
     (\<forall>kw\<in>set [''CALL TRANSACTION'', ''SUBMIT'']. \<forall>q\<in>set [[], [sq], [dq]].
        \<exists>h. find_mm_purchasing_issues (Some (kw @ '' '' @ q @ ''ME28'' @ q @ ''.'')) = Inr [h] \<and>
          target_name h = ''ME28'' \<and> \<not> ambiguous h \<and>
          (\<forall>new\<in>set [''ME29N'']. sublist new (suggested_statement h)))"
    by fast
  then have "\<exists>h. find_mm_purchasing_issues (Some (''CALL TRANSACTION'' @ '' '' @ [sq] @ ''ME28'' @ [sq] @ ''.'')) = Inr [h] \<and>
      target_name h = ''ME28'' \<and> \<not> ambiguous h \<and> sublist ''ME29N'' (suggested_statement h)"
    by simp
  with a show ?thesis by simp
qed

text \<open>
  C5. The code ME24 has the two replacements ME21N and ME22N. Every Transaction record for
  ME24 in the scan of any text is ambiguous, and its suggested statement is the two
  single-replacement renderings (for the keyword form that matched) joined by \<open>or\<close>. The
  scan of a minimal invocation returns exactly such a record, in either keyword form.
\<close>

theorem two_replacements_ambiguous:
  "(find_mm_purchasing_issues (Some t) = Inr hs \<and> h \<in> set hs \<and>
      target_type h = ''Transaction'' \<and> target_name h = ''ME24'' \<longrightarrow>
      ambiguous h \<and>
      (\<exists>st x y. mk_suggested_statement ''txn'' ''ME24'' [''ME21N''] st = Inr x \<and>
         mk_suggested_statement ''txn'' ''ME24'' [''ME22N''] st = Inr y \<and>
         suggested_statement h = x @ '' or '' @ y)) \<and>
   (\<exists>h. find_mm_purchasing_issues (Some (''CALL TRANSACTION '' @ [sq] @ ''ME24'' @ [sq] @ ''.'')) = Inr [h] \<and>
      target_type h = ''Transaction'' \<and> target_name h = ''ME24'' \<and> ambiguous h \<and>
      suggested_statement h =
        ''CALL TRANSACTION '' @ [sq] @ ''ME21N'' @ [sq] @ ''. or CALL TRANSACTION '' @ [sq] @ ''ME22N'' @ [sq] @ ''.'') \<and>
   (\<exists>h. find_mm_purchasing_issues (Some ''SUBMIT ME24.'') = Inr [h] \<and>
      target_type h = ''Transaction'' \<and> target_name h = ''ME24'' \<and> ambiguous h \<and>
      suggested_statement h = ''SUBMIT ME21N. or SUBMIT ME22N.'')"
proof (intro conjI impI)
  assume a: "find_mm_purchasing_issues (Some t) = Inr hs \<and> h \<in> set hs \<and>
      target_type h = ''Transaction'' \<and> target_name h = ''ME24''"
  then have f: "find_mm_purchasing_issues (Some t) = Inr hs" and h: "h \<in> set hs"
    and ty: "target_type h = ''Transaction''" and nm: "target_name h = ''ME24''" by simp_all
  from hit_origin [OF f h] ty have "\<exists>m. txn_body m [] = Inr [h]"
    by (auto dest: emits_fields(4))
  then obtain m where "txn_body m [] = Inr [h]" by blast
  from txn_body_hit [OF this] nm obtain st where
    mk: "mk_suggested_statement ''txn'' ''ME24'' [''ME21N'', ''ME22N''] st = Inr (suggested_statement h)"
    and amb: "ambiguous h"
    by (auto simp: TXN_MAP_def)
  from mk_txn_two [of "''ME24''" "''ME21N''" st "''ME22N''"] mk
  have "\<exists>x y. mk_suggested_statement ''txn'' ''ME24'' [''ME21N''] st = Inr x \<and>
         mk_suggested_statement ''txn'' ''ME24'' [''ME22N''] st = Inr y \<and>
         suggested_statement h = x @ '' or '' @ y"
    by auto
  then show "\<exists>st x y. mk_suggested_statement ''txn'' ''ME24'' [''ME21N''] st = Inr x \<and>
         mk_suggested_statement ''txn'' ''ME24'' [''ME22N''] st = Inr y \<and>
         suggested_statement h = x @ '' or '' @ y" by blast
  show "ambiguous h" by (rule amb)
next
  show "\<exists>h. find_mm_purchasing_issues (Some (''CALL TRANSACTION '' @ [sq] @ ''ME24'' @ [sq] @ ''.'')) = Inr [h] \<and>
      target_type h = ''Transaction'' \<and> target_name h = ''ME24'' \<and> ambiguous h \<and>
      suggested_statement h =
        ''CALL TRANSACTION '' @ [sq] @ ''ME21N'' @ [sq] @ ''. or CALL TRANSACTION '' @ [sq] @ ''ME22N'' @ [sq] @ ''.''"
    by (simp add: ev)
next
  show "\<exists>h. find_mm_purchasing_issues (Some ''SUBMIT ME24.'') = Inr [h] \<and>
      target_type h = ''Transaction'' \<and> target_name h = ''ME24'' \<and> ambiguous h \<and>
      suggested_statement h = ''SUBMIT ME21N. or SUBMIT ME22N.''"
    by (simp add: ev)
qed

theorem two_replacements_ambiguous_witness:
  "\<exists>hs h. find_mm_purchasing_issues (Some ''IF x. submit me24 .'') = Inr hs \<and> h \<in> set hs \<and>
     target_type h = ''Transaction'' \<and> target_name h = ''ME24'' \<and>
     ambiguous h \<and>
     (\<exists>st x y. mk_suggested_statement ''txn'' ''ME24'' [''ME21N''] st = Inr x \<and>
        mk_suggested_statement ''txn'' ''ME24'' [''ME22N''] st = Inr y \<and>
        suggested_statement h = x @ '' or '' @ y)"
proof -
  obtain h where e: "find_mm_purchasing_issues (Some ''IF x. submit me24 .'') = Inr [h]"
    and p: "target_type h = ''Transaction''" "target_name h = ''ME24''"
    by (simp add: ev)
  have "h \<in> set [h]" by simp
  with two_replacements_ambiguous [of "''IF x. submit me24 .''" "[h]" h] e p
  have "ambiguous h \<and>
     (\<exists>st x y. mk_suggested_statement ''txn'' ''ME24'' [''ME21N''] st = Inr x \<and>
        mk_suggested_statement ''txn'' ''ME24'' [''ME22N''] st = Inr y \<and>
        suggested_statement h = x @ '' or '' @ y)"
    by fast
  with e p show ?thesis by (intro exI [of _ "[h]"] exI [of _ h]) simp
qed

text \<open>
  C6, as stated, fails: a text that contains a remote-call invocation of IDOC_INPUT_PORDCH
  need not yield a record for it. A match of the remote-call pattern runs up to the next
  full stop, so a call of BAPI_PO_CREATE that is not terminated takes the following call
  of IDOC_INPUT_PORDCH (offsets 34 to 68) into its own match (offsets 2 to 68), and the scan
  returns one record only, for BAPI_PO_CREATE and not ambiguous.
\<close>

theorem swallowed_handler_call_counterexample:
  "find_mm_purchasing_issues
     (Some (''* CALL FUNCTION '' @ [sq] @ ''BAPI_PO_CREATE'' @ [sq] @ [CHR 0x0A] @
            '' CALL FUNCTION '' @ [sq] @ ''IDOC_INPUT_PORDCH'' @ [sq] @ ''.'')) =
     Inr [\<lparr>table = ''None'', target_type = ''FunctionModule'', target_name = ''BAPI_PO_CREATE'',
           start_char_in_unit = 2, end_char_in_unit = 68, used_fields = [],
           ambiguous = False,
           suggested_statement = ''CALL FUNCTION '' @ [sq] @ ''BAPI_PO_CREATE1'' @ [sq] @ ''.'',
           suggested_fields = None, note' = Some ''Use Enjoy PO BAPI.''\<rparr>] \<and>
   slice (''* CALL FUNCTION '' @ [sq] @ ''BAPI_PO_CREATE'' @ [sq] @ [CHR 0x0A] @
          '' CALL FUNCTION '' @ [sq] @ ''IDOC_INPUT_PORDCH'' @ [sq] @ ''.'') 34 68 =
     ''CALL FUNCTION '' @ [sq] @ ''IDOC_INPUT_PORDCH'' @ [sq] @ ''.''"
  by (simp add: ev)

text \<open>
  C6, amended. The handler IDOC_INPUT_PORDCH is mapped to its own name. For every text,
  every match that the remote-call pattern finds with that name has a record in the output,
  ambiguous and over the span of the match (no match is skipped); every FunctionModule
  record for that name is ambiguous, although its suggested statement calls the very name
  that was matched; and the scan of the minimal invocation returns exactly one record,
  ambiguous.
\<close>

theorem same_name_handler_ambiguous:
  "(find_mm_purchasing_issues (Some t) = Inr hs \<and> h \<in> set hs \<and>
      target_type h = ''FunctionModule'' \<and> target_name h = ''IDOC_INPUT_PORDCH'' \<longrightarrow>
      ambiguous h \<and>
      suggested_statement h = ''CALL FUNCTION '' @ [sq] @ target_name h @ [sq] @ ''.'') \<and>
   (find_mm_purchasing_issues (Some t) = Inr hs \<and> FUNC_RE = Some re \<and>
      m \<in> set (finditer re t 0) \<and> group_upper m ''name'' = Inr ''IDOC_INPUT_PORDCH'' \<longrightarrow>
      (\<exists>h. h \<in> set hs \<and> target_type h = ''FunctionModule'' \<and>
         target_name h = ''IDOC_INPUT_PORDCH'' \<and> ambiguous h \<and>
         start_char_in_unit h = int (m_start m) \<and> end_char_in_unit h = int (m_end m))) \<and>
   (\<exists>h. find_mm_purchasing_issues (Some (''CALL FUNCTION '' @ [sq] @ ''IDOC_INPUT_PORDCH'' @ [sq] @ ''.'')) = Inr [h] \<and>
      target_type h = ''FunctionModule'' \<and> target_name h = ''IDOC_INPUT_PORDCH'' \<and>
      ambiguous h \<and>
      suggested_statement h = ''CALL FUNCTION '' @ [sq] @ ''IDOC_INPUT_PORDCH'' @ [sq] @ ''.'')"
proof (intro conjI impI)
  assume a: "find_mm_purchasing_issues (Some t) = Inr hs \<and> h \<in> set hs \<and>
      target_type h = ''FunctionModule'' \<and> target_name h = ''IDOC_INPUT_PORDCH''"
  then have f: "find_mm_purchasing_issues (Some t) = Inr hs" and h: "h \<in> set hs"
    and ty: "target_type h = ''FunctionModule''" and nm: "target_name h = ''IDOC_INPUT_PORDCH''"
    by simp_all
  from hit_origin [OF f h] ty have "\<exists>m. func_body m [] = Inr [h]"
    by (auto dest: emits_fields(4))
  then obtain m where "func_body m [] = Inr [h]" by blast
  from func_body_hit [OF this] nm
  show "ambiguous h" and
    "suggested_statement h = ''CALL FUNCTION '' @ [sq] @ target_name h @ [sq] @ ''.''"
    by (auto simp: BAPI_MAP_def IDOC_MAP_def getitem_def)
next
  assume a: "find_mm_purchasing_issues (Some t) = Inr hs \<and> FUNC_RE = Some re \<and>
      m \<in> set (finditer re t 0) \<and> group_upper m ''name'' = Inr ''IDOC_INPUT_PORDCH''"
  then have f: "find_mm_purchasing_issues (Some t) = Inr hs" and re: "FUNC_RE = Some re"
    and m: "m \<in> set (finditer re t 0)" and g: "group_upper m ''name'' = Inr ''IDOC_INPUT_PORDCH''"
    by simp_all
  from func_body_PORDCH [OF g] obtain h where
    b: "func_body m [] = Inr [h]" and nm: "target_name h = ''IDOC_INPUT_PORDCH''" and amb: "ambiguous h"
    by blast
  have em: "\<forall>m\<in>set (finditer re t 0). emits func_body ''FunctionModule'' m"
    using match_emits(2) [OF re] by blast
  from scan_passes [of t] obtain re' p1 p2 p3 p4 p5 where
    re': "FUNC_RE = Some re'" and
    p2': "for_each func_body (finditer re' t 0) [] = Inr p2" and
    f': "find_mm_purchasing_issues (Some t) = Inr (p1 @ p2 @ p3 @ p4 @ p5)"
    by blast
  from re re' have "re' = re" by (metis option.inject)
  with p2' have p2: "for_each func_body (finditer re t 0) [] = Inr p2" by simp
  from f f' have hs: "hs = p1 @ p2 @ p3 @ p4 @ p5" by simp
  from pass_member [OF em p2 m b] hs have "h \<in> set hs" by simp
  moreover from em m have "emits func_body ''FunctionModule'' m" by blast
  note emits_fields(4,5,6) [OF this b]
  ultimately show "\<exists>h. h \<in> set hs \<and> target_type h = ''FunctionModule'' \<and>
         target_name h = ''IDOC_INPUT_PORDCH'' \<and> ambiguous h \<and>
         start_char_in_unit h = int (m_start m) \<and> end_char_in_unit h = int (m_end m)"
    using nm amb by blast
next
  show "\<exists>h. find_mm_purchasing_issues (Some (''CALL FUNCTION '' @ [sq] @ ''IDOC_INPUT_PORDCH'' @ [sq] @ ''.'')) = Inr [h] \<and>
      target_type h = ''FunctionModule'' \<and> target_name h = ''IDOC_INPUT_PORDCH'' \<and>
      ambiguous h \<and>
      suggested_statement h = ''CALL FUNCTION '' @ [sq] @ ''IDOC_INPUT_PORDCH'' @ [sq] @ ''.''"
    by (simp add: ev)
qed

theorem same_name_handler_ambiguous_witness:
  "\<exists>hs h. find_mm_purchasing_issues
       (Some (''call function '' @ [sq] @ ''idoc_input_pordch'' @ [sq] @ '' exporting a = b.'')) = Inr hs \<and>
     h \<in> set hs \<and> target_type h = ''FunctionModule'' \<and> target_name h = ''IDOC_INPUT_PORDCH'' \<and>
     ambiguous h \<and>
     suggested_statement h = ''CALL FUNCTION '' @ [sq] @ target_name h @ [sq] @ ''.''"
proof -
  let ?t = "''call function '' @ [sq] @ ''idoc_input_pordch'' @ [sq] @ '' exporting a = b.''"
  obtain h where e: "find_mm_purchasing_issues (Some ?t) = Inr [h]"
    and p: "target_type h = ''FunctionModule''" "target_name h = ''IDOC_INPUT_PORDCH''"
    by (simp add: ev)
  have "h \<in> set [h]" by simp
  with same_name_handler_ambiguous [of ?t "[h]" h] e p
  have "ambiguous h \<and>
     suggested_statement h = ''CALL FUNCTION '' @ [sq] @ target_name h @ [sq] @ ''.''"
    by fast
  with e p show ?thesis by (intro exI [of _ "[h]"] exI [of _ h]) simp
qed

text \<open>
  C9. Every record that the loop over the read-only reports appends, for any text, is
  ambiguous and carries one fixed suggested statement, and it is part of the scan's output.
  That statement is a redirect instruction, not an invocation: it starts with neither
  \<open>SUBMIT\<close> nor \<open>CALL\<close>. The scan of a submission of each of the three read-only report
  names returns such a record for that name (as the second of two records: the loop over
  the generic *30 reports reports the same name first).
\<close>

theorem read_only_report_redirect:
  "(for_each read_body (finditer READ_RE t 0) [] = Inr p \<and> h \<in> set p \<longrightarrow>
      target_type h = ''Report'' \<and> ambiguous h \<and>
      suggested_statement h =
        ''Use transaction SARI for displaying archived MM Purchasing documents.'' \<and>
      (\<exists>hs. find_mm_purchasing_issues (Some t) = Inr hs \<and> h \<in> set hs)) \<and>
   \<not> startswith ''Use transaction SARI for displaying archived MM Purchasing documents.'' ''SUBMIT'' \<and>
   \<not> startswith ''Use transaction SARI for displaying archived MM Purchasing documents.'' ''CALL'' \<and>
   (\<forall>n\<in>set READ_REPORTS.
      \<exists>h' h. find_mm_purchasing_issues (Some (''SUBMIT '' @ n @ ''.'')) = Inr [h', h] \<and>
        target_type h = ''Report'' \<and> target_name h = n \<and> ambiguous h \<and>
        suggested_statement h =
          ''Use transaction SARI for displaying archived MM Purchasing documents.'')"
proof (intro conjI impI)
  assume a: "for_each read_body (finditer READ_RE t 0) [] = Inr p \<and> h \<in> set p"
  then have p: "for_each read_body (finditer READ_RE t 0) [] = Inr p" and h: "h \<in> set p"
    by simp_all
  have em: "\<forall>m\<in>set (finditer READ_RE t 0). emits read_body ''Report'' m"
    using match_emits(5) by blast
  from pass_hit [OF em p h] obtain m where
    b: "read_body m [] = Inr [h]" and e: "emits read_body ''Report'' m" by blast
  from emits_fields(4) [OF e b] show "target_type h = ''Report''" .
  from read_body_hit [OF b] show "ambiguous h" and
    "suggested_statement h =
       ''Use transaction SARI for displaying archived MM Purchasing documents.''"
    by simp_all
  from scan_passes [of t] p h
  show "\<exists>hs. find_mm_purchasing_issues (Some t) = Inr hs \<and> h \<in> set hs" by auto
next
  show "\<not> startswith ''Use transaction SARI for displaying archived MM Purchasing documents.'' ''SUBMIT''"
    by (simp add: startswith_def)
  show "\<not> startswith ''Use transaction SARI for displaying archived MM Purchasing documents.'' ''CALL''"
    by (simp add: startswith_def)
  show "\<forall>n\<in>set READ_REPORTS.
      \<exists>h' h. find_mm_purchasing_issues (Some (''SUBMIT '' @ n @ ''.'')) = Inr [h', h] \<and>
        target_type h = ''Report'' \<and> target_name h = n \<and> ambiguous h \<and>
        suggested_statement h =
          ''Use transaction SARI for displaying archived MM Purchasing documents.''"
    by (simp add: ev)
qed

theorem read_only_report_redirect_witness:
  "\<exists>p h. for_each read_body (finditer READ_RE ''submit RM06BR30 via job.'' 0) [] = Inr p \<and>
     h \<in> set p \<and> target_name h = ''RM06BR30'' \<and>
     target_type h = ''Report'' \<and> ambiguous h \<and>
     suggested_statement h =
       ''Use transaction SARI for displaying archived MM Purchasing documents.'' \<and>
     (\<exists>hs. find_mm_purchasing_issues (Some ''submit RM06BR30 via job.'') = Inr hs \<and> h \<in> set hs)"
proof -
  let ?t = "''submit RM06BR30 via job.''"
  obtain h where e: "for_each read_body (finditer READ_RE ?t 0) [] = Inr [h]"
    and n: "target_name h = ''RM06BR30''"
    by (simp add: ev)
  have "h \<in> set [h]" by simp
  with read_only_report_redirect [of ?t "[h]" h] e
  have "target_type h = ''Report'' \<and> ambiguous h \<and>
     suggested_statement h =
       ''Use transaction SARI for displaying archived MM Purchasing documents.'' \<and>
     (\<exists>hs. find_mm_purchasing_issues (Some ?t) = Inr hs \<and> h \<in> set hs)"
    by fast
  with e n show ?thesis by (intro exI [of _ "[h]"] exI [of _ h]) simp
qed

end
